theory Spec2Isabelle
  imports Complex_Main "HOL-Library.AList"
begin

section \<open>Python values used by nonsense\_detector.py\<close>

text \<open>
  The exceptions the modelled functions can raise. Three of them are Python's
  \<^verbatim>\<open>ValueError\<close>, told apart here by where they are raised:
  \<open>MaxEmptySequence\<close> is the one \<^verbatim>\<open>max()\<close> raises on an empty sequence,
  \<open>MathDomainError\<close> the one \<^verbatim>\<open>math.log\<close> and \<^verbatim>\<open>math.pow\<close> raise outside
  their domain, \<open>TooShortToTest\<close> is \<^verbatim>\<open>ValueError('Too short to test')\<close> and
  \<open>CannotFindPickle\<close> is \<^verbatim>\<open>ValueError('Cannot find pickle file ...')\<close>.
  \<open>RecursionError\<close> is what CPython raises when a recursion never reaches its base case.
\<close>

datatype error =
    MaxEmptySequence
  | MathDomainError
  | TooShortToTest
  | CannotFindPickle
  | KeyError string
  | ZeroDivisionError
  | StopIteration
  | RecursionError

text \<open>
  Floating-point numbers are idealised as real numbers: \<^verbatim>\<open>math.log(x, 2)\<close> is
  \<open>log 2 x\<close>, \<^verbatim>\<open>math.pow\<close> is \<open>powr\<close> on a positive base, \<^verbatim>\<open>math.ceil\<close> is the
  ceiling. Rounding, overflow, infinities and NaN are outside the model; the domain errors
  of the two functions are inside it.
\<close>

definition py_log2 :: "real \<Rightarrow> error + real" where
  "py_log2 x = (if x \<le> 0 then Inl MathDomainError else Inr (log 2 x))"

text \<open>
  \<^verbatim>\<open>math.pow(x, y)\<close> for a base that is a non-negative integer (the only bases the
  module passes): \<^verbatim>\<open>pow(x, 0.0)\<close> is 1.0 for every x, also for x = 0;
  \<^verbatim>\<open>pow(0, y)\<close> is 0.0 for y > 0 and raises \<^verbatim>\<open>ValueError\<close> for y < 0.
\<close>

definition py_pow :: "nat \<Rightarrow> real \<Rightarrow> error + real" where
  "py_pow x y =
     (if y = 0 then Inr 1
      else if x = 0 then (if y < 0 then Inl MathDomainError else Inr 0)
      else Inr (real x powr y))"

text \<open>\<^verbatim>\<open>max(xs)\<close> of a list: raises on the empty list.\<close>

definition py_max :: "'a::linorder list \<Rightarrow> error + 'a" where
  "py_max xs = (case xs of [] \<Rightarrow> Inl MaxEmptySequence | x # ys \<Rightarrow> Inr (fold max ys x))"

text \<open>
  A slice \<^verbatim>\<open>s[i:j]\<close> with both bounds given: a negative bound counts from the end,
  and both are then clamped into \<open>0..len(s)\<close>.
\<close>

definition py_slice :: "'a list \<Rightarrow> int \<Rightarrow> int \<Rightarrow> 'a list" where
  "py_slice s i j =
     (let len = int (length s);
          clamp = (\<lambda>k. if k < 0 then max 0 (k + len) else min k len);
          lo = clamp i;
          hi = clamp j
      in take (nat (hi - lo)) (drop (nat lo) s))"

text \<open>
  Strings are lists of 8-bit characters. \<^verbatim>\<open>str.lower()\<close> is modelled on ASCII, where it
  maps each letter of \<^verbatim>\<open>string.ascii_uppercase\<close> to the letter of \<^verbatim>\<open>string.ascii_lowercase\<close>
  at the same position and leaves every other character alone.
\<close>

definition ascii_uppercase :: string where
  "ascii_uppercase = ''ABCDEFGHIJKLMNOPQRSTUVWXYZ''"

definition ascii_lowercase :: string where
  "ascii_lowercase = ''abcdefghijklmnopqrstuvwxyz''"

definition lower_char :: "char \<Rightarrow> char" where
  "lower_char c =
     (case map_of (zip ascii_uppercase ascii_lowercase) c of None \<Rightarrow> c | Some l \<Rightarrow> l)"

definition lower :: "string \<Rightarrow> string" where
  "lower s = map lower_char s"

text \<open>\<^verbatim>\<open>string.punctuation\<close> and \<^verbatim>\<open>string.digits\<close> of the standard library.\<close>

definition punctuation :: string where
  "punctuation = ''!'' @ [CHR 0x22] @ ''#$%&'' @ [CHR 0x27] @ ''()*+,-./:;<=>?@[''
     @ [CHR 0x5C] @ '']^_'' @ [CHR 0x60] @ ''{|}~''"

definition digits :: string where
  "digits = ''0123456789''"

section \<open>General n-gram functions\<close>

text \<open>
  \<^verbatim>\<open>return [string[i : i + n] for i in range(len(string) - n + 1)]\<close>
\<close>

definition ngrams :: "string \<Rightarrow> int \<Rightarrow> string list" where
  "ngrams string n =
     map (\<lambda>i. py_slice string (int i) (int i + n))
       [0 ..< nat (int (length string) - n + 1)]"

text \<open>
  The recursion of \<^verbatim>\<open>all_possible_ngrams\<close> stops at \<open>n = 0\<close> and \<open>n = 1\<close> only; below 0
  it never returns, which is the value \<open>None\<close> here. The source calls
  \<^verbatim>\<open>all_possible_ngrams(n - 1)\<close> once for every letter; the call has no effect and always
  gives the same list, so the model binds it once.
\<close>

partial_function (option) all_possible_ngrams :: "int \<Rightarrow> string list option" where
  "all_possible_ngrams n =
     (if n = 0 then Some []
      else if n = 1 then Some (map (\<lambda>letter. [letter]) ascii_lowercase)
      else Option.bind (all_possible_ngrams (n - 1))
             (\<lambda>sub. Some (concat (map (\<lambda>letter. map (\<lambda>ngram. letter # ngram) sub)
                                      ascii_lowercase))))"

section \<open>The modified TF-IDF table\<close>

text \<open>
  Modelled from the spec: the named tuple \<^verbatim>\<open>NGramData\<close> is used by the module but
  declared outside it; its three fields are the spec's NGramStat
  (\<open>string_frequency\<close>, \<open>total_frequency\<close>, \<open>idf\<close>).
\<close>

record NGramData =
  string_frequency :: nat
  total_frequency :: nat
  idf :: real

text \<open>
  A Python dict is an association list with distinct keys in insertion order:
  \<^verbatim>\<open>d[k] = v\<close> is \<open>AList.update k v d\<close> (an existing key keeps its place, a new one
  goes last), \<^verbatim>\<open>d[k]\<close> is \<open>map_of d k\<close>, \<^verbatim>\<open>len(d)\<close> is \<open>length d\<close>.
\<close>

type_synonym table = "(string \<times> NGramData) list"

definition ngram_idf_value :: "nat \<Rightarrow> nat \<Rightarrow> nat \<Rightarrow> nat \<Rightarrow> error + real" where
  "ngram_idf_value total_num_strings string_freq total_freq max_frequency =
     py_log2 (real total_num_strings / (1 + real string_freq))"

definition highest_idf :: "table \<Rightarrow> error + real" where
  "highest_idf ngram_freq = py_max (map (\<lambda>(n, v). idf v) ngram_freq)"

definition highest_total_frequency :: "table \<Rightarrow> error + nat" where
  "highest_total_frequency ngram_freq = py_max (map (\<lambda>(n, v). total_frequency v) ngram_freq)"

text \<open>
  The two \<^verbatim>\<open>defaultdict\<close>s of the counting pass: \<^verbatim>\<open>counts[ngram] += 1\<close> and
  \<^verbatim>\<open>occurrences[ngram].add(string)\<close>, a missing key standing for 0 and for the empty set.
\<close>

definition count_incr :: "string \<Rightarrow> (string \<times> nat) list \<Rightarrow> (string \<times> nat) list" where
  "count_incr ngram counts =
     AList.update ngram ((case map_of counts ngram of None \<Rightarrow> 0 | Some c \<Rightarrow> c) + 1) counts"

definition occurrence_add ::
  "string \<Rightarrow> string \<Rightarrow> (string \<times> string set) list \<Rightarrow> (string \<times> string set) list" where
  "occurrence_add ngram string occurrences =
     AList.update ngram
       (insert string (case map_of occurrences ngram of None \<Rightarrow> {} | Some S \<Rightarrow> S))
       occurrences"

text \<open>One round of the loop over \<^verbatim>\<open>string_list\<close> (lines 351 to 356).\<close>

definition count_string ::
  "int \<Rightarrow> string \<Rightarrow> (string \<times> nat) list \<times> (string \<times> string set) list \<times> nat
     \<Rightarrow> (string \<times> nat) list \<times> (string \<times> string set) list \<times> nat" where
  "count_string n raw st =
     (case st of (counts, occurrences, num_strings) \<Rightarrow>
        let string = lower raw in
        case fold (\<lambda>ngram (occ, cnt). (occurrence_add ngram string occ, count_incr ngram cnt))
               (ngrams string n) (occurrences, counts)
        of (occ, cnt) \<Rightarrow> (cnt, occ, num_strings + 1))"

text \<open>\<^verbatim>\<open>defaultdict.fromkeys(keys, value)\<close>\<close>

definition fromkeys :: "string list \<Rightarrow> NGramData \<Rightarrow> table" where
  "fromkeys keys v = fold (\<lambda>k d. AList.update k v d) keys []"

text \<open>
  The loop over \<^verbatim>\<open>occurrences.items()\<close> (lines 364 to 370); \<^verbatim>\<open>counts[ngram]\<close> reads a
  \<^verbatim>\<open>defaultdict(int)\<close>.
\<close>

fun set_values ::
  "nat \<Rightarrow> nat \<Rightarrow> (string \<times> nat) list \<Rightarrow> (string \<times> string set) list \<Rightarrow> table
     \<Rightarrow> error + table" where
  "set_values num_strings max_frequency counts [] all_ngrams = Inr all_ngrams"
| "set_values num_strings max_frequency counts ((ngram, string_list) # rest) all_ngrams =
     (let string_freq = card string_list;
          total_freq = (case map_of counts ngram of None \<Rightarrow> 0 | Some c \<Rightarrow> c)
      in case ngram_idf_value num_strings string_freq total_freq max_frequency of
           Inl e \<Rightarrow> Inl e
         | Inr score \<Rightarrow>
             set_values num_strings max_frequency counts rest
               (AList.update ngram
                  \<lparr>string_frequency = string_freq, total_frequency = total_freq, idf = score\<rparr>
                  all_ngrams))"

text \<open>
  The loop of lines 375 to 380. It visits every key once and assigns only to the key it
  is visiting, so it is a map over the items.
\<close>

definition readjust :: "real \<Rightarrow> table \<Rightarrow> table" where
  "readjust max_idf all_ngrams =
     map (\<lambda>(ngram, v).
            if idf v = 0
            then (ngram, \<lparr>string_frequency = 0, total_frequency = 0, idf = max_idf\<rparr>)
            else (ngram, v))
       all_ngrams"

definition ngram_values :: "string list \<Rightarrow> int \<Rightarrow> bool \<Rightarrow> error + table" where
  "ngram_values string_list n readjust_zero_scores =
     (case fold (count_string n) string_list ([], [], 0) of
        (counts, occurrences, num_strings) \<Rightarrow>
        (case all_possible_ngrams n of
           None \<Rightarrow> Inl RecursionError
         | Some keys \<Rightarrow>
             let all_ngrams = fromkeys keys \<lparr>string_frequency = 0, total_frequency = 0, idf = 0\<rparr>
             in (case py_max (map snd counts) of
                   Inl e \<Rightarrow> Inl e
                 | Inr max_frequency \<Rightarrow>
                     (case set_values num_strings max_frequency counts occurrences all_ngrams of
                        Inl e \<Rightarrow> Inl e
                      | Inr scored \<Rightarrow>
                          if readjust_zero_scores
                          then (case highest_idf scored of
                                  Inl e \<Rightarrow> Inl e
                                | Inr h \<Rightarrow> Inr (readjust (of_int \<lceil>h\<rceil>) scored))
                          else Inr scored))))"

section \<open>The score function\<close>

text \<open>
  The closure \<^verbatim>\<open>tfidf_score_function\<close> returns is the record of what it captures:
  the table, \<^verbatim>\<open>max_freq\<close>, \<^verbatim>\<open>ngram_length\<close> and the three parameters
  (\<^verbatim>\<open>len_threshold\<close> is an integer, on which \<^verbatim>\<open>int()\<close> is the identity).
  \<^verbatim>\<open>next(iter(ngram_freq.keys()))\<close> is the first key of the table.
\<close>

record scorer =
  sc_ngram_freq :: table
  sc_max_freq :: nat
  sc_ngram_length :: nat
  sc_len_threshold :: int
  sc_len_penalty_exp :: real
  sc_repetition_penalty_exp :: real

definition tfidf_score_function :: "table \<Rightarrow> int \<Rightarrow> real \<Rightarrow> real \<Rightarrow> error + scorer" where
  "tfidf_score_function ngram_freq len_threshold len_penalty_exp repetition_penalty_exp =
     (case highest_total_frequency ngram_freq of
        Inl e \<Rightarrow> Inl e
      | Inr max_freq \<Rightarrow>
          (case ngram_freq of
             [] \<Rightarrow> Inl StopIteration
           | (key, v) # rest \<Rightarrow>
               Inr \<lparr>sc_ngram_freq = ngram_freq, sc_max_freq = max_freq,
                    sc_ngram_length = length key, sc_len_threshold = len_threshold,
                    sc_len_penalty_exp = len_penalty_exp,
                    sc_repetition_penalty_exp = repetition_penalty_exp\<rparr>))"

text \<open>
  One term of the generator in lines 453 and 454, for the item \<open>(n, c)\<close> of
  \<^verbatim>\<open>ngram_counts\<close>: the table lookup, then \<^verbatim>\<open>pow\<close>, then the division by
  \<^verbatim>\<open>max_freq\<close>.
\<close>

definition ngram_term :: "scorer \<Rightarrow> string \<times> nat \<Rightarrow> error + real" where
  "ngram_term sc item =
     (case item of (n, c) \<Rightarrow>
        (case map_of (sc_ngram_freq sc) n of
           None \<Rightarrow> Inl (KeyError n)
         | Some v \<Rightarrow>
             (case py_pow c (sc_repetition_penalty_exp sc) of
                Inl e \<Rightarrow> Inl e
              | Inr p \<Rightarrow>
                  if sc_max_freq sc = 0 then Inl ZeroDivisionError
                  else Inr (idf v * p * (0.5 + 0.5 * real c / real (sc_max_freq sc))))))"

text \<open>\<^verbatim>\<open>sum(...)\<close> over a generator whose items can raise: left to right, from 0.\<close>

fun py_sum :: "('a \<Rightarrow> error + real) \<Rightarrow> 'a list \<Rightarrow> real \<Rightarrow> error + real" where
  "py_sum f [] acc = Inr acc"
| "py_sum f (x # xs) acc = (case f x of Inl e \<Rightarrow> Inl e | Inr t \<Rightarrow> py_sum f xs (acc + t))"

definition score_function :: "scorer \<Rightarrow> string \<Rightarrow> error + real" where
  "score_function sc string =
     (let string_ngrams = ngrams string (int (sc_ngram_length sc));
          ngram_counts = fold count_incr string_ngrams [];
          num_ngrams = length string_ngrams
      in case py_pow (nat (max 0 (int num_ngrams - sc_len_threshold sc)))
                (sc_len_penalty_exp sc) of
           Inl e \<Rightarrow> Inl e
         | Inr length_penalty \<Rightarrow>
             (case py_sum (ngram_term sc) ngram_counts 0 of
                Inl e \<Rightarrow> Inl e
              | Inr s \<Rightarrow> Inr ((s + length_penalty) / (1 + real num_ngrams))))"

section \<open>Scoring and evaluating strings\<close>

text \<open>
  \<^verbatim>\<open>_delchars = str.maketrans('', '', string.punctuation + string.digits + ' ')\<close>:
  translating with it deletes exactly these characters.
\<close>

definition delchars :: string where
  "delchars = punctuation @ digits @ '' ''"

definition translate_delchars :: "string \<Rightarrow> string" where
  "translate_delchars s = filter (\<lambda>c. c \<notin> set delchars) s"

text \<open>
  The closure \<^verbatim>\<open>nonsense_detector\<close> (lines 509 to 514). The traced variant
  (lines 497 to 507) prints a message and returns the same value.
\<close>

definition nonsense_detector :: "scorer \<Rightarrow> int \<Rightarrow> real \<Rightarrow> string \<Rightarrow> error + bool" where
  "nonsense_detector string_score min_length min_score raw =
     (let string = translate_delchars (lower raw)
      in if int (length string) < min_length then Inl TooShortToTest
         else (case score_function string_score string of
                 Inl e \<Rightarrow> Inl e
               | Inr score \<Rightarrow> Inr (score > min_score)))"

text \<open>
  \<^verbatim>\<open>generate_nonsense_detector\<close>. An empty (or absent) \<^verbatim>\<open>ngram_freq\<close> makes it read the
  pickle file; \<open>pickle\<close> is the table stored there, \<open>None\<close> when the file does not exist.
\<close>

definition generate_nonsense_detector ::
  "table \<Rightarrow> table option \<Rightarrow> int \<Rightarrow> real \<Rightarrow> int \<Rightarrow> real \<Rightarrow> real
     \<Rightarrow> error + (string \<Rightarrow> error + bool)" where
  "generate_nonsense_detector ngram_freq pickle min_length min_score
       score_len_threshold score_len_penalty_exp score_rep_penalty_exp =
     (case (if ngram_freq = [] then pickle else Some ngram_freq) of
        None \<Rightarrow> Inl CannotFindPickle
      | Some freq \<Rightarrow>
          (case tfidf_score_function freq score_len_threshold score_len_penalty_exp
                  score_rep_penalty_exp of
             Inl e \<Rightarrow> Inl e
           | Inr string_score \<Rightarrow> Inr (nonsense_detector string_score min_length min_score)))"

section \<open>Notions used in the statements\<close>

text \<open>
  The n-gram occurrences the counting pass sees, in order, alone and paired with the
  lower-cased string they come from; the two dictionaries the pass builds from them; the
  set of strings an n-gram occurs in; and the table as it stands after the loop over
  \<^verbatim>\<open>occurrences.items()\<close>, before the zero scores are readjusted.
\<close>

definition corpus_ngrams :: "int \<Rightarrow> string list \<Rightarrow> string list" where
  "corpus_ngrams n corpus = concat (map (\<lambda>raw. ngrams (lower raw) n) corpus)"

definition corpus_pairs :: "int \<Rightarrow> string list \<Rightarrow> (string \<times> string) list" where
  "corpus_pairs n corpus =
     concat (map (\<lambda>raw. map (\<lambda>g. (g, lower raw)) (ngrams (lower raw) n)) corpus)"

definition zero_entry :: NGramData where
  "zero_entry = \<lparr>string_frequency = 0, total_frequency = 0, idf = 0\<rparr>"

definition count_table :: "int \<Rightarrow> string list \<Rightarrow> (string \<times> nat) list" where
  "count_table n corpus = fold count_incr (corpus_ngrams n corpus) []"

definition occurrence_table :: "int \<Rightarrow> string list \<Rightarrow> (string \<times> string set) list" where
  "occurrence_table n corpus = fold (\<lambda>(g, s). occurrence_add g s) (corpus_pairs n corpus) []"

definition scored_entry :: "nat \<Rightarrow> (string \<times> nat) list \<Rightarrow> string \<Rightarrow> string set \<Rightarrow> NGramData" where
  "scored_entry N cnt g S =
     \<lparr>string_frequency = card S,
      total_frequency = (case map_of cnt g of None \<Rightarrow> 0 | Some c \<Rightarrow> c),
      idf = log 2 (real N / (1 + real (card S)))\<rparr>"

definition occurrence_set :: "int \<Rightarrow> string list \<Rightarrow> string \<Rightarrow> string set" where
  "occurrence_set n corpus g = {s. (g, s) \<in> set (corpus_pairs n corpus)}"

definition scored_table :: "int \<Rightarrow> string list \<Rightarrow> string list \<Rightarrow> error + table" where
  "scored_table n corpus keys =
     set_values (length corpus) (Max (set (map snd (count_table n corpus))))
       (count_table n corpus) (occurrence_table n corpus) (fromkeys keys zero_entry)"

text \<open>The idf values of the entries of a table whose \<open>string_frequency\<close> is positive.\<close>

definition seen_idfs :: "table \<Rightarrow> real list" where
  "seen_idfs t = map (\<lambda>(g, v). idf v) (filter (\<lambda>(g, v). 0 < string_frequency v) t)"

text \<open>
  The score as the specification words it (section 4.3, steps 1 to 6): the contribution
  of an n-gram, the length penalty, and the sum over the distinct n-grams of the string
  divided by \<open>1 + m\<close>. Powers are real powers (\<open>powr\<close>, with \<open>0 powr y = 0\<close>).
\<close>

definition spec_contribution :: "real \<Rightarrow> nat \<Rightarrow> real \<Rightarrow> nat \<Rightarrow> real" where
  "spec_contribution idf_g c rexp max_total_frequency =
     idf_g * real c powr rexp * (0.5 + 0.5 * real c / real max_total_frequency)"

definition spec_length_penalty :: "nat \<Rightarrow> int \<Rightarrow> real \<Rightarrow> real" where
  "spec_length_penalty m length_threshold lexp =
     real_of_int (max 0 (int m - length_threshold)) powr lexp"

definition spec_score :: "table \<Rightarrow> int \<Rightarrow> real \<Rightarrow> real \<Rightarrow> int \<Rightarrow> string \<Rightarrow> real" where
  "spec_score weights length_threshold lexp rexp n s =
     (let grams = ngrams s n;
          m = length grams;
          max_total_frequency = Max ((\<lambda>(g, v). total_frequency v) ` set weights)
      in ((\<Sum>g \<in> set grams.
             spec_contribution (idf (the (map_of weights g))) (count_list grams g) rexp
               max_total_frequency)
          + spec_length_penalty m length_threshold lexp) / (1 + real m))"

section \<open>Theorems\<close>

subsection \<open>The counting pass and the table\<close>

lemma distinct_ascii_lowercase: "distinct ascii_lowercase"
  by (simp add: ascii_lowercase_def)

lemma length_ascii_lowercase: "length ascii_lowercase = 26"
  by (simp add: ascii_lowercase_def)

lemma length_cons_all:
  "length (concat (map (\<lambda>letter. map (\<lambda>ngram. letter # ngram) sub) A)) = length A * length sub"
  by (induction A) simp_all

lemma set_cons_all:
  "set (concat (map (\<lambda>letter. map (\<lambda>ngram. letter # ngram) sub) A))
     = {letter # ngram | letter ngram. letter \<in> set A \<and> ngram \<in> set sub}"
  by auto

lemma distinct_cons_all:
  "distinct A \<Longrightarrow> distinct sub
    \<Longrightarrow> distinct (concat (map (\<lambda>letter. map (\<lambda>ngram. letter # ngram) sub) A))"
proof (induction A)
  case Nil
  then show ?case by simp
next
  case (Cons a A)
  have "distinct (map (\<lambda>ngram. a # ngram) sub)"
    using Cons.prems by (simp add: distinct_map inj_on_def)
  moreover have "set (map (\<lambda>ngram. a # ngram) sub)
      \<inter> set (concat (map (\<lambda>letter. map (\<lambda>ngram. letter # ngram) sub) A)) = {}"
    using Cons.prems by auto
  ultimately show ?case using Cons by simp
qed

lemma words_Suc:
  "{g. length g = Suc k \<and> set g \<subseteq> S} = {l # g | l g. l \<in> S \<and> length g = k \<and> set g \<subseteq> S}"
  by (auto simp: length_Suc_conv)

lemma all_possible_ngrams_pos:
  "\<exists>keys. all_possible_ngrams (int (Suc k)) = Some keys \<and> distinct keys
        \<and> length keys = 26 ^ Suc k
        \<and> set keys = {g. length g = Suc k \<and> set g \<subseteq> set ascii_lowercase}"
proof (induction k)
  case 0
  have "all_possible_ngrams 1 = Some (map (\<lambda>letter. [letter]) ascii_lowercase)"
    by (subst all_possible_ngrams.simps) simp
  moreover have "distinct (map (\<lambda>letter. [letter]) ascii_lowercase)"
    by (simp add: distinct_map distinct_ascii_lowercase inj_on_def)
  moreover have "set (map (\<lambda>letter. [letter]) ascii_lowercase)
      = {g. length g = Suc 0 \<and> set g \<subseteq> set ascii_lowercase}"
    by (auto simp: length_Suc_conv)
  ultimately show ?case by (simp add: length_ascii_lowercase)
next
  case (Suc k)
  then obtain sub where sub: "all_possible_ngrams (int (Suc k)) = Some sub" "distinct sub"
    "length sub = 26 ^ Suc k" "set sub = {g. length g = Suc k \<and> set g \<subseteq> set ascii_lowercase}"
    by blast
  let ?keys = "concat (map (\<lambda>letter. map (\<lambda>ngram. letter # ngram) sub) ascii_lowercase)"
  have e: "int (Suc (Suc k)) - 1 = int (Suc k)" "int (Suc (Suc k)) \<noteq> 0"
    "int (Suc (Suc k)) \<noteq> 1" by simp_all
  have "all_possible_ngrams (int (Suc (Suc k))) = Some ?keys"
    by (subst all_possible_ngrams.simps) (simp only: e sub(1) if_False Option.bind.simps)
  moreover have "distinct ?keys"
    by (rule distinct_cons_all [OF distinct_ascii_lowercase sub(2)])
  moreover have "length ?keys = 26 ^ Suc (Suc k)"
    by (simp add: length_cons_all length_ascii_lowercase sub(3))
  moreover have "set ?keys = {g. length g = Suc (Suc k) \<and> set g \<subseteq> set ascii_lowercase}"
    unfolding set_cons_all words_Suc [of "Suc k"] sub(4) by auto
  ultimately show ?case by blast
qed

lemma all_possible_ngrams_zero: "all_possible_ngrams 0 = Some []"
  by (subst all_possible_ngrams.simps) simp

lemmas all_possible_ngrams_induct =
  all_possible_ngrams.raw_induct [rotated 1, consumes 1, case_names call]

lemma all_possible_ngrams_Some_nonneg:
  assumes "all_possible_ngrams n = Some keys"
  shows "0 \<le> n"
  using assms
proof (induct rule: all_possible_ngrams_induct)
  case (call f n keys)
  note IH = call(1) and eq = call(2)
  show ?case
  proof (cases "n = 0 \<or> n = 1")
    case True
    then show ?thesis by auto
  next
    case False
    with eq obtain sub where "f (n - 1) = Some sub"
      by (auto simp: bind_eq_Some_conv)
    then have "0 \<le> n - 1" by (rule IH)
    then show ?thesis by simp
  qed
qed

lemma all_possible_ngrams_neg: "n < 0 \<Longrightarrow> all_possible_ngrams n = None"
  using all_possible_ngrams_Some_nonneg [of n] by (cases "all_possible_ngrams n") auto

lemma fold_pair_split:
  "fold (\<lambda>ngram (occ, cnt). (occurrence_add ngram str occ, count_incr ngram cnt)) gs (occ, cnt)
     = (fold (\<lambda>g. occurrence_add g str) gs occ, fold count_incr gs cnt)"
  by (induction gs arbitrary: occ cnt) simp_all

lemma count_pass:
  "fold (count_string n) corpus (cnt, occ, num) =
     (fold count_incr (corpus_ngrams n corpus) cnt,
      fold (\<lambda>(g, s). occurrence_add g s) (corpus_pairs n corpus) occ,
      num + length corpus)"
  by (induction corpus arbitrary: cnt occ num)
    (simp_all add: count_string_def fold_pair_split corpus_ngrams_def corpus_pairs_def
      fold_map comp_def Let_def)

lemma fst_corpus_pairs: "map fst (corpus_pairs n corpus) = corpus_ngrams n corpus"
  by (induction corpus) (simp_all add: corpus_pairs_def corpus_ngrams_def comp_def)

lemma map_of_fold_count_incr:
  "map_of (fold count_incr xs c) g =
     (if g \<in> set xs \<or> map_of c g \<noteq> None
      then Some ((case map_of c g of None \<Rightarrow> 0 | Some k \<Rightarrow> k) + count_list xs g)
      else None)"
  by (induction xs arbitrary: c)
    (auto simp: count_incr_def update_conv' split: option.splits)

lemma keys_fold_count_incr: "fst ` set (fold count_incr xs c) = fst ` set c \<union> set xs"
  by (induction xs arbitrary: c) (auto simp: count_incr_def dom_update)

lemma distinct_fold_count_incr:
  "distinct (map fst c) \<Longrightarrow> distinct (map fst (fold count_incr xs c))"
  by (induction xs arbitrary: c) (simp_all add: count_incr_def distinct_update)

lemma map_of_occurrence_add:
  "map_of (occurrence_add a b occ) =
     (map_of occ)(a \<mapsto> insert b (case map_of occ a of None \<Rightarrow> {} | Some S \<Rightarrow> S))"
  by (simp add: occurrence_add_def update_conv')

lemma map_of_fold_occurrence_add:
  "map_of (fold (\<lambda>(g, s). occurrence_add g s) ps occ) g =
     (if g \<in> fst ` set ps \<or> map_of occ g \<noteq> None
      then Some ((case map_of occ g of None \<Rightarrow> {} | Some S \<Rightarrow> S) \<union> {s. (g, s) \<in> set ps})
      else None)"
proof (induction ps arbitrary: occ)
  case Nil
  then show ?case by (cases "map_of occ g") simp_all
next
  case (Cons p ps)
  obtain a b where p: "p = (a, b)" by (cases p)
  let ?occ = "occurrence_add a b occ"
  have step: "fold (\<lambda>(g, s). occurrence_add g s) (p # ps) occ
      = fold (\<lambda>(g, s). occurrence_add g s) ps ?occ"
    by (simp add: p)
  show ?case
  proof (cases "g = a")
    case True
    have "map_of ?occ g
        = Some (insert b (case map_of occ g of None \<Rightarrow> {} | Some S \<Rightarrow> S))"
      by (simp add: map_of_occurrence_add True)
    moreover have "{s. (g, s) \<in> set (p # ps)} = insert b {s. (g, s) \<in> set ps}"
      by (auto simp: p True)
    moreover have "g \<in> fst ` set (p # ps)" by (simp add: p True)
    ultimately show ?thesis
      unfolding step Cons.IH [of ?occ] by simp
  next
    case False
    have "map_of ?occ g = map_of occ g"
      by (simp add: map_of_occurrence_add False)
    moreover have "{s. (g, s) \<in> set (p # ps)} = {s. (g, s) \<in> set ps}"
      by (auto simp: p False)
    moreover have "g \<in> fst ` set (p # ps) \<longleftrightarrow> g \<in> fst ` set ps"
      using False by (auto simp: p)
    ultimately show ?thesis
      unfolding step Cons.IH [of ?occ] by simp
  qed
qed

lemma keys_fold_occurrence_add:
  "fst ` set (fold (\<lambda>(g, s). occurrence_add g s) ps occ) = fst ` set occ \<union> fst ` set ps"
proof (induction ps arbitrary: occ)
  case Nil
  then show ?case by simp
next
  case (Cons p ps)
  obtain a b where p: "p = (a, b)" by (cases p)
  have "fst ` set (occurrence_add a b occ) = insert a (fst ` set occ)"
    by (simp add: occurrence_add_def dom_update)
  then show ?case
    by (simp add: p Cons.IH)
qed

lemma distinct_fold_occurrence_add:
  "distinct (map fst occ) \<Longrightarrow> distinct (map fst (fold (\<lambda>(g, s). occurrence_add g s) ps occ))"
  by (induction ps arbitrary: occ) (auto simp: occurrence_add_def distinct_update)

lemma py_max_Inr:
  assumes "xs \<noteq> []"
  shows "py_max xs = Inr (Max (set xs))"
proof -
  from assms obtain x ys where xs: "xs = x # ys" by (cases xs) auto
  have "fold max ys x = Max (set (x # ys))" by (rule Max.set_eq_fold [symmetric])
  then show ?thesis by (simp add: py_max_def xs)
qed

lemma py_max_Nil: "py_max [] = Inl MaxEmptySequence"
  by (simp add: py_max_def)

lemma map_of_fold_update:
  "map_of (fold (\<lambda>k d. AList.update k v d) keys d) g
     = (if g \<in> set keys then Some v else map_of d g)"
  by (induction keys arbitrary: d) (auto simp: update_conv')

lemma keys_fold_update:
  "fst ` set (fold (\<lambda>k d. AList.update k v d) keys d) = fst ` set d \<union> set keys"
proof (induction keys arbitrary: d)
  case Nil
  then show ?case by simp
next
  case (Cons k keys)
  have "fst ` set (AList.update k v d) = insert k (fst ` set d)"
    by (simp add: dom_update)
  then show ?case by (simp add: Cons.IH)
qed

lemma distinct_fold_update:
  "distinct (map fst d) \<Longrightarrow> distinct (map fst (fold (\<lambda>k d. AList.update k v d) keys d))"
  by (induction keys arbitrary: d) (simp_all add: distinct_update)

lemma map_of_fromkeys: "map_of (fromkeys keys v) g = (if g \<in> set keys then Some v else None)"
  by (simp add: fromkeys_def map_of_fold_update)

lemma keys_fromkeys: "fst ` set (fromkeys keys v) = set keys"
  by (simp add: fromkeys_def keys_fold_update)

lemma distinct_fromkeys: "distinct (map fst (fromkeys keys v))"
  by (simp add: fromkeys_def distinct_fold_update)

lemma set_values_Cons:
  "set_values N mf cnt ((g, S) # rest) T =
     (if 0 < N then set_values N mf cnt rest (AList.update g (scored_entry N cnt g S) T)
      else Inl MathDomainError)"
  by (simp add: ngram_idf_value_def py_log2_def scored_entry_def Let_def not_le
      add_pos_nonneg divide_le_0_iff)

lemma set_values_Inr: "0 < N \<Longrightarrow> \<exists>T'. set_values N mf cnt occ T = Inr T'"
proof (induction occ arbitrary: T)
  case Nil
  then show ?case by simp
next
  case (Cons p occ)
  obtain g S where p: "p = (g, S)" by (cases p)
  from Cons show ?case unfolding p set_values_Cons by simp
qed

lemma set_values_keys:
  "set_values N mf cnt occ T = Inr T' \<Longrightarrow> fst ` set T' = fst ` set T \<union> fst ` set occ"
proof (induction occ arbitrary: T)
  case Nil
  then show ?case by simp
next
  case (Cons p occ)
  obtain g S where p: "p = (g, S)" by (cases p)
  from Cons.prems have N: "0 < N"
    and r: "set_values N mf cnt occ (AList.update g (scored_entry N cnt g S) T) = Inr T'"
    unfolding p set_values_Cons by (simp_all split: if_splits)
  have "fst ` set (AList.update g (scored_entry N cnt g S) T) = insert g (fst ` set T)"
    by (simp add: dom_update)
  with Cons.IH [OF r] show ?case by (simp add: p)
qed

lemma set_values_distinct:
  "set_values N mf cnt occ T = Inr T' \<Longrightarrow> distinct (map fst T) \<Longrightarrow> distinct (map fst T')"
proof (induction occ arbitrary: T)
  case Nil
  then show ?case by simp
next
  case (Cons p occ)
  obtain g S where p: "p = (g, S)" by (cases p)
  from Cons.prems have
    r: "set_values N mf cnt occ (AList.update g (scored_entry N cnt g S) T) = Inr T'"
    unfolding p set_values_Cons by (simp_all split: if_splits)
  show ?case by (rule Cons.IH [OF r]) (simp add: distinct_update Cons.prems)
qed

lemma set_values_map_of:
  "set_values N mf cnt occ T = Inr T' \<Longrightarrow> distinct (map fst occ)
     \<Longrightarrow> map_of T' g =
          (case map_of occ g of None \<Rightarrow> map_of T g | Some S \<Rightarrow> Some (scored_entry N cnt g S))"
proof (induction occ arbitrary: T)
  case Nil
  then show ?case by simp
next
  case (Cons p occ)
  obtain k S where p: "p = (k, S)" by (cases p)
  let ?T = "AList.update k (scored_entry N cnt k S) T"
  from Cons.prems have r: "set_values N mf cnt occ ?T = Inr T'"
    unfolding p set_values_Cons by (simp_all split: if_splits)
  from Cons.prems have d: "distinct (map fst occ)" and k: "k \<notin> fst ` set occ"
    by (simp_all add: p)
  from k have kn: "map_of occ k = None" by (simp add: map_of_eq_None_iff)
  show ?case
    unfolding Cons.IH [OF r d] p
    by (cases "g = k") (simp_all add: kn update_conv' split: option.splits)
qed

lemma keys_readjust: "map fst (readjust m T) = map fst T"
  by (induction T) (auto simp: readjust_def)

lemma readjust_map:
  "readjust m T =
     map (\<lambda>(g, v). (g, if idf v = 0
                        then \<lparr>string_frequency = 0, total_frequency = 0, idf = m\<rparr> else v)) T"
  by (induction T) (auto simp: readjust_def)

lemma in_readjust:
  "(g, d) \<in> set (readjust m T) \<longleftrightarrow>
     (\<exists>v. (g, v) \<in> set T \<and>
        d = (if idf v = 0 then \<lparr>string_frequency = 0, total_frequency = 0, idf = m\<rparr> else v))"
proof -
  define f where "f = (\<lambda>v. if idf v = 0
      then \<lparr>string_frequency = 0, total_frequency = 0, idf = m\<rparr> else v)"
  have "set (readjust m T) = (\<lambda>(g, v). (g, f v)) ` set T"
    by (simp add: readjust_map f_def)
  moreover have "(g, d) \<in> (\<lambda>(g, v). (g, f v)) ` set T \<longleftrightarrow> (\<exists>v. (g, v) \<in> set T \<and> d = f v)"
    by force
  ultimately show ?thesis by (simp add: f_def)
qed

lemma count_pass_init:
  "fold (count_string n) corpus ([], [], 0)
     = (count_table n corpus, occurrence_table n corpus, length corpus)"
  by (simp add: count_pass count_table_def occurrence_table_def)

lemma keys_count_table: "fst ` set (count_table n corpus) = set (corpus_ngrams n corpus)"
  by (simp add: count_table_def keys_fold_count_incr)

lemma count_table_Nil_iff: "count_table n corpus = [] \<longleftrightarrow> corpus_ngrams n corpus = []"
proof -
  have "count_table n corpus = [] \<longleftrightarrow> fst ` set (count_table n corpus) = {}" by simp
  then show ?thesis by (simp add: keys_count_table)
qed

lemma keys_occurrence_table:
  "fst ` set (occurrence_table n corpus) = set (corpus_ngrams n corpus)"
  by (simp add: occurrence_table_def keys_fold_occurrence_add fst_corpus_pairs [symmetric])

lemma distinct_occurrence_table: "distinct (map fst (occurrence_table n corpus))"
  by (simp add: occurrence_table_def distinct_fold_occurrence_add)

lemma map_of_occurrence_table:
  "map_of (occurrence_table n corpus) g =
     (if g \<in> set (corpus_ngrams n corpus) then Some (occurrence_set n corpus g) else None)"
proof -
  have "fst ` set (corpus_pairs n corpus) = set (corpus_ngrams n corpus)"
    by (simp add: fst_corpus_pairs [symmetric])
  then show ?thesis
    by (simp add: occurrence_table_def map_of_fold_occurrence_add occurrence_set_def)
qed

lemma corpus_ngrams_nonempty: "corpus_ngrams n corpus \<noteq> [] \<Longrightarrow> corpus \<noteq> []"
  by (auto simp: corpus_ngrams_def)

lemma ngram_values_unfold:
  "ngram_values corpus n r =
     (case all_possible_ngrams n of
        None \<Rightarrow> Inl RecursionError
      | Some keys \<Rightarrow>
          if corpus_ngrams n corpus = [] then Inl MaxEmptySequence
          else (case scored_table n corpus keys of
                  Inl e \<Rightarrow> Inl e
                | Inr scored \<Rightarrow>
                    if r then (case highest_idf scored of
                                 Inl e \<Rightarrow> Inl e
                               | Inr h \<Rightarrow> Inr (readjust (of_int \<lceil>h\<rceil>) scored))
                    else Inr scored))"
proof (cases "all_possible_ngrams n")
  case None
  then show ?thesis by (simp add: ngram_values_def count_pass_init)
next
  case (Some keys)
  show ?thesis
  proof (cases "corpus_ngrams n corpus = []")
    case True
    then have "count_table n corpus = []" by (simp add: count_table_Nil_iff)
    then show ?thesis
      by (simp add: ngram_values_def count_pass_init Some True py_max_Nil)
  next
    case False
    then have "map snd (count_table n corpus) \<noteq> []" by (simp add: count_table_Nil_iff)
    then have "py_max (map snd (count_table n corpus))
        = Inr (Max (set (map snd (count_table n corpus))))"
      by (rule py_max_Inr)
    then show ?thesis
      by (simp add: ngram_values_def count_pass_init Some False scored_table_def
          zero_entry_def Let_def)
  qed
qed

lemma scored_table_Inr:
  "corpus \<noteq> [] \<Longrightarrow> \<exists>scored. scored_table n corpus keys = Inr scored"
  unfolding scored_table_def by (rule set_values_Inr) simp

lemma map_of_scored_table:
  assumes "scored_table n corpus keys = Inr scored"
  shows "map_of scored g =
     (if g \<in> set (corpus_ngrams n corpus)
      then Some (scored_entry (length corpus) (count_table n corpus) g (occurrence_set n corpus g))
      else if g \<in> set keys then Some zero_entry else None)"
  using set_values_map_of [OF assms [unfolded scored_table_def] distinct_occurrence_table, of g]
  by (simp add: map_of_occurrence_table map_of_fromkeys)

lemma distinct_scored_table:
  assumes "scored_table n corpus keys = Inr scored"
  shows "distinct (map fst scored)"
  using set_values_distinct [OF assms [unfolded scored_table_def]] by (simp add: distinct_fromkeys)

lemma keys_scored_table:
  assumes "scored_table n corpus keys = Inr scored"
  shows "fst ` set scored = set keys \<union> set (corpus_ngrams n corpus)"
  using set_values_keys [OF assms [unfolded scored_table_def]]
  by (simp add: keys_fromkeys keys_occurrence_table)

lemma occurrence_set_facts:
  assumes "g \<in> set (corpus_ngrams n corpus)"
  shows "finite (occurrence_set n corpus g)" "1 \<le> card (occurrence_set n corpus g)"
    "card (occurrence_set n corpus g) \<le> length corpus"
proof -
  let ?S = "occurrence_set n corpus g"
  have sub: "?S \<subseteq> lower ` set corpus"
    by (auto simp: occurrence_set_def corpus_pairs_def)
  then show fin: "finite ?S" by (rule finite_subset) simp
  from assms have "g \<in> fst ` set (corpus_pairs n corpus)"
    by (simp add: fst_corpus_pairs [symmetric])
  then have "?S \<noteq> {}" by (auto simp: occurrence_set_def)
  with fin show "1 \<le> card ?S" by (simp add: Suc_le_eq card_gt_0_iff)
  have "card ?S \<le> card (lower ` set corpus)" by (rule card_mono [OF _ sub]) simp
  also have "\<dots> \<le> card (set corpus)" by (rule card_image_le) simp
  also have "\<dots> \<le> length corpus" by (rule card_length)
  finally show "card ?S \<le> length corpus" .
qed

lemma scored_table_entries:
  assumes "scored_table n corpus keys = Inr scored" "(g, v) \<in> set scored"
  shows "v = zero_entry \<or>
         (1 \<le> string_frequency v \<and> string_frequency v \<le> length corpus
          \<and> idf v = log 2 (real (length corpus) / (1 + real (string_frequency v))))"
proof -
  from assms have "map_of scored g = Some v"
    using distinct_scored_table [OF assms(1)] by simp
  then show ?thesis
    unfolding map_of_scored_table [OF assms(1)]
    using occurrence_set_facts [of g n corpus]
    by (auto simp: scored_entry_def split: if_splits)
qed


lemma py_slice_window:
  assumes "i + n \<le> length s"
  shows "py_slice s (int i) (int i + int n) = take n (drop i s)"
  using assms by (simp add: py_slice_def Let_def min_def)

lemma length_ngrams: "length (ngrams s n) = nat (int (length s) - n + 1)"
  by (simp add: ngrams_def)

lemma in_ngramsD:
  assumes "g \<in> set (ngrams s (int n))"
  shows "\<exists>i. i + n \<le> length s \<and> g = take n (drop i s)"
proof -
  from assms obtain i where i: "i < nat (int (length s) - int n + 1)"
    and g: "g = py_slice s (int i) (int i + int n)"
    by (auto simp: ngrams_def)
  from i have "i + n \<le> length s" by linarith
  with g py_slice_window [of i n s] show ?thesis by auto
qed

lemma ngram_length: "g \<in> set (ngrams s (int n)) \<Longrightarrow> length g = n"
  by (auto dest!: in_ngramsD)

lemma ngram_subset: "g \<in> set (ngrams s (int n)) \<Longrightarrow> set g \<subseteq> set s"
proof -
  assume "g \<in> set (ngrams s (int n))"
  then obtain i where "g = take n (drop i s)" by (auto dest!: in_ngramsD)
  then show ?thesis
    using set_take_subset [of n "drop i s"] set_drop_subset [of i s] by auto
qed

lemma length_lower: "length (lower s) = length s"
  by (simp add: lower_def)

lemma corpus_ngrams_exists:
  assumes "s \<in> set corpus" "n \<le> length s"
  shows "corpus_ngrams (int n) corpus \<noteq> []"
proof -
  have "length (ngrams (lower s) (int n)) = length s - n + 1"
    using assms(2) by (simp add: length_ngrams length_lower)
  then have "ngrams (lower s) (int n) \<noteq> []" by auto
  with assms(1) show ?thesis by (auto simp: corpus_ngrams_def)
qed

lemma corpus_ngrams_lowercase:
  assumes "\<forall>s \<in> set corpus. set (lower s) \<subseteq> A" "g \<in> set (corpus_ngrams (int n) corpus)"
  shows "length g = n \<and> set g \<subseteq> A"
proof -
  from assms(2) obtain s where s: "s \<in> set corpus" "g \<in> set (ngrams (lower s) (int n))"
    by (auto simp: corpus_ngrams_def)
  from s(2) have "length g = n" "set g \<subseteq> set (lower s)"
    by (rule ngram_length, rule ngram_subset)
  with assms(1) s(1) show ?thesis by blast
qed

lemma highest_idf_Inr:
  "t \<noteq> [] \<Longrightarrow> highest_idf t = Inr (Max ((\<lambda>(g, v). idf v) ` set t))"
  by (simp add: highest_idf_def py_max_Inr)

lemma ngram_values_Inr:
  assumes "all_possible_ngrams n = Some keys" "corpus_ngrams n corpus \<noteq> []"
  obtains scored where "scored_table n corpus keys = Inr scored" "scored \<noteq> []"
    "ngram_values corpus n True
       = Inr (readjust (of_int \<lceil>Max ((\<lambda>(g, v). idf v) ` set scored)\<rceil>) scored)"
    "ngram_values corpus n False = Inr scored"
proof -
  from assms(2) have "corpus \<noteq> []" by (rule corpus_ngrams_nonempty)
  then obtain scored where sc: "scored_table n corpus keys = Inr scored"
    using scored_table_Inr by blast
  from keys_scored_table [OF sc] assms(2) have ne: "scored \<noteq> []" by auto
  show ?thesis
    by (rule that [OF sc ne]) (simp_all add: ngram_values_unfold assms sc highest_idf_Inr ne)
qed

lemma ngram_values_InrD:
  assumes "ngram_values corpus n r = Inr t"
  obtains keys scored where "all_possible_ngrams n = Some keys" "corpus_ngrams n corpus \<noteq> []"
    "scored_table n corpus keys = Inr scored" "scored \<noteq> []"
    "t = (if r then readjust (of_int \<lceil>Max ((\<lambda>(g, v). idf v) ` set scored)\<rceil>) scored else scored)"
proof -
  from assms obtain keys where k: "all_possible_ngrams n = Some keys"
    by (cases "all_possible_ngrams n") (simp_all add: ngram_values_unfold)
  from assms k have c: "corpus_ngrams n corpus \<noteq> []"
    by (auto simp: ngram_values_unfold)
  from ngram_values_Inr [OF k c] obtain scored where
    sc: "scored_table n corpus keys = Inr scored" "scored \<noteq> []"
    "ngram_values corpus n True
       = Inr (readjust (of_int \<lceil>Max ((\<lambda>(g, v). idf v) ` set scored)\<rceil>) scored)"
    "ngram_values corpus n False = Inr scored"
    by blast
  show ?thesis
    by (rule that [OF k c sc(1,2)]) (use assms sc(3,4) in \<open>cases r; simp\<close>)
qed

lemma idf_bounds_scored:
  assumes "scored_table n corpus keys = Inr scored" "(g, v) \<in> set scored" "corpus \<noteq> []"
  shows "- 1 \<le> idf v \<and> idf v \<le> log 2 (real (length corpus))"
proof -
  let ?N = "real (length corpus)"
  from assms(3) have N: "1 \<le> ?N" by (cases corpus) simp_all
  from scored_table_entries [OF assms(1,2)] show ?thesis
  proof
    assume "v = zero_entry"
    moreover have "0 \<le> log 2 ?N"
      using N by (subst zero_le_log_cancel_iff) auto
    ultimately show ?thesis by (simp add: zero_entry_def)
  next
    assume h: "1 \<le> string_frequency v \<and> string_frequency v \<le> length corpus
      \<and> idf v = log 2 (?N / (1 + real (string_frequency v)))"
    let ?sf = "real (string_frequency v)"
    from h have sf: "1 \<le> ?sf" "?sf \<le> ?N" by simp_all
    have Npos: "0 < ?N" using N by linarith
    have pos: "0 < ?N / (1 + ?sf)"
      by (rule divide_pos_pos [OF Npos]) (use sf in linarith)
    have "1 / 2 \<le> ?N / (1 + ?sf)"
      using sf N by (simp add: field_simps)
    then have "log 2 (1 / 2) \<le> log 2 (?N / (1 + ?sf))"
      using pos by (subst log_le_cancel_iff) simp_all
    moreover have "log 2 (1 / 2) = - 1" by (simp add: log_divide)
    moreover have "?N / (1 + ?sf) \<le> ?N"
      using sf N by (simp add: field_simps)
    then have "log 2 (?N / (1 + ?sf)) \<le> log 2 ?N"
      using pos Npos by (subst log_le_cancel_iff) simp_all
    ultimately show ?thesis using h by simp
  qed
qed

lemma ngram_values_lookup:
  assumes "scored_table n corpus keys = Inr scored"
  shows "fst ` set (readjust m scored) = set keys \<union> set (corpus_ngrams n corpus)"
    and "distinct (map fst (readjust m scored))"
    and "length (readjust m scored) = card (set keys \<union> set (corpus_ngrams n corpus))"
proof -
  have k: "map fst (readjust m scored) = map fst scored" by (rule keys_readjust)
  have "set (map fst (readjust m scored)) = set (map fst scored)" by (simp only: k)
  then show 1: "fst ` set (readjust m scored) = set keys \<union> set (corpus_ngrams n corpus)"
    by (simp add: keys_scored_table [OF assms])
  show 2: "distinct (map fst (readjust m scored))"
    by (simp only: k distinct_scored_table [OF assms])
  have "length (readjust m scored) = length (map fst (readjust m scored))" by simp
  also have "\<dots> = card (set (map fst (readjust m scored)))"
    by (rule distinct_card [OF 2, symmetric])
  finally show "length (readjust m scored) = card (set keys \<union> set (corpus_ngrams n corpus))"
    using 1 by simp
qed

lemma idf_bounds_final:
  assumes sc: "scored_table n corpus keys = Inr scored" and ne: "scored \<noteq> []"
    and c: "corpus \<noteq> []"
    and d: "(g, d) \<in> set (readjust (of_int \<lceil>Max ((\<lambda>(g, v). idf v) ` set scored)\<rceil>) scored)"
  shows "- 1 \<le> idf d \<and> idf d \<le> of_int \<lceil>log 2 (real (length corpus))\<rceil>"
proof -
  let ?L = "log 2 (real (length corpus))"
  let ?h = "Max ((\<lambda>(g, v). idf v) ` set scored)"
  have "?h \<in> (\<lambda>(g, v). idf v) ` set scored"
    by (rule Max_in) (use ne in simp_all)
  then obtain g' v' where "(g', v') \<in> set scored" "?h = idf v'" by auto
  with idf_bounds_scored [OF sc _ c] have h: "- 1 \<le> ?h" "?h \<le> ?L" by auto
  have hc: "- 1 \<le> (of_int \<lceil>?h\<rceil> :: real)"
    using h(1) le_of_int_ceiling [of ?h] by linarith
  have hL: "(of_int \<lceil>?h\<rceil> :: real) \<le> of_int \<lceil>?L\<rceil>"
    using ceiling_mono [OF h(2)] by simp
  from d obtain v where v: "(g, v) \<in> set scored"
    and dv: "d = (if idf v = 0
        then \<lparr>string_frequency = 0, total_frequency = 0, idf = of_int \<lceil>?h\<rceil>\<rparr> else v)"
    unfolding in_readjust by blast
  show ?thesis
  proof (cases "idf v = 0")
    case True
    with dv hc hL show ?thesis by simp
  next
    case False
    with dv have "d = v" by simp
    from idf_bounds_scored [OF sc v c] have b: "- 1 \<le> idf v" "idf v \<le> ?L" by simp_all
    note b(2)
    also have "?L \<le> of_int \<lceil>?L\<rceil>" by (rule le_of_int_ceiling)
    finally show ?thesis using b(1) \<open>d = v\<close> by simp
  qed
qed

subsection \<open>The builder on small corpora\<close>

lemmas eval_defs = ngram_values_def count_string_def lower_def lower_char_def ngrams_def
  py_slice_def occurrence_add_def count_incr_def Let_def ascii_lowercase_def ascii_uppercase_def
  fromkeys_def py_max_def ngram_idf_value_def py_log2_def highest_idf_def readjust_def

lemma all_possible_ngrams_1:
  "all_possible_ngrams 1 = Some (map (\<lambda>letter. [letter]) ascii_lowercase)"
  by (subst all_possible_ngrams.simps) simp

lemma log2_half: "log 2 (1 / 2) = - 1"
  by (simp add: log_divide)

lemma ngram_values_a:
  "ngram_values [''a''] 1 True =
     Inr ((''a'', \<lparr>string_frequency = 1, total_frequency = 1, idf = - 1\<rparr>)
          # map (\<lambda>letter. ([letter], \<lparr>string_frequency = 0, total_frequency = 0, idf = 0\<rparr>))
              ''bcdefghijklmnopqrstuvwxyz'')"
  by (simp add: eval_defs all_possible_ngrams_1 all_possible_ngrams_zero log2_half)

lemma ngram_values_a_b:
  "ngram_values [''a'', ''b''] 1 True =
     Inr (map (\<lambda>letter. ([letter], \<lparr>string_frequency = 0, total_frequency = 0, idf = 0\<rparr>))
            ascii_lowercase)"
  by (simp add: eval_defs all_possible_ngrams_1 all_possible_ngrams_zero log2_half)

lemma ngram_values_n0:
  "ngram_values [''a''] 0 True =
     Inr [('''', \<lparr>string_frequency = 1, total_frequency = 2, idf = - 1\<rparr>)]"
  by (simp add: eval_defs all_possible_ngrams_1 all_possible_ngrams_zero log2_half upt_rec)

lemma ngram_values_empty_string: "ngram_values [''''] 1 True = Inl MaxEmptySequence"
  by (simp add: eval_defs all_possible_ngrams_1 all_possible_ngrams_zero log2_half)

lemma ngram_values_digit:
  "ngram_values [''1''] 1 True =
     Inr (map (\<lambda>letter. ([letter], \<lparr>string_frequency = 0, total_frequency = 0, idf = 0\<rparr>))
            ascii_lowercase
          @ [(''1'', \<lparr>string_frequency = 1, total_frequency = 1, idf = - 1\<rparr>)])"
  by (simp add: eval_defs all_possible_ngrams_1 all_possible_ngrams_zero log2_half)

lemma ceiling_max_zero: "(of_int \<lceil>max 0 x\<rceil> :: real) = max 0 (of_int \<lceil>x :: real\<rceil>)"
proof (cases "x \<le> 0")
  case True
  then have "\<lceil>x\<rceil> \<le> 0" by simp
  then have "(of_int \<lceil>x\<rceil> :: real) \<le> 0" by simp
  then have "max 0 (of_int \<lceil>x\<rceil>) = (0 :: real)" by (rule max_absorb1)
  moreover from True have "max 0 x = 0" by (rule max_absorb1)
  ultimately show ?thesis by simp
next
  case False
  then have "0 < \<lceil>x\<rceil>" by simp
  then have "(0 :: real) \<le> of_int \<lceil>x\<rceil>" by simp
  then have "max 0 (of_int \<lceil>x\<rceil>) = (of_int \<lceil>x\<rceil> :: real)" by (rule max_absorb2)
  moreover from False have "max 0 x = x" by (simp add: max_absorb2)
  ultimately show ?thesis by simp
qed

lemma set_seen_idfs:
  "set (seen_idfs t) = {idf v | g v. (g, v) \<in> set t \<and> 0 < string_frequency v}"
  by (auto simp: seen_idfs_def image_iff)

lemma all_possible_ngrams_nonneg: "0 \<le> n \<Longrightarrow> \<exists>keys. all_possible_ngrams n = Some keys"
proof -
  assume "0 \<le> n"
  then obtain k where n: "n = int k" by (metis nonneg_int_cases)
  show ?thesis
  proof (cases k)
    case 0
    with n show ?thesis by (simp add: all_possible_ngrams_zero)
  next
    case (Suc j)
    with n all_possible_ngrams_pos [of j] show ?thesis by auto
  qed
qed

lemma distinct_singleton:
  assumes "distinct xs" "set xs = {a}"
  shows "xs = [a]"
proof (cases xs)
  case Nil
  with assms(2) show ?thesis by simp
next
  case (Cons x ys)
  with assms(2) have x: "x = a" and sub: "set ys \<subseteq> {a}" by auto
  from assms(1) Cons x have "a \<notin> set ys" by simp
  with sub have "ys = []" by (cases ys) auto
  with Cons x show ?thesis by simp
qed

lemma ngram_values_neg: "n < 0 \<Longrightarrow> ngram_values corpus n r = Inl RecursionError"
  by (simp add: ngram_values_unfold all_possible_ngrams_neg)

lemma ngram_values_no_ngrams:
  assumes "0 \<le> n" "corpus_ngrams n corpus = []"
  shows "ngram_values corpus n r = Inl MaxEmptySequence"
proof -
  from all_possible_ngrams_nonneg [OF assms(1)] obtain keys
    where "all_possible_ngrams n = Some keys" by blast
  then show ?thesis by (simp add: ngram_values_unfold assms(2))
qed

lemma ngram_values_zero:
  assumes "corpus \<noteq> []"
  shows "\<exists>t. ngram_values corpus 0 r = Inr t \<and> map fst t = ['''']"
proof -
  from assms obtain s where s: "s \<in> set corpus" by (cases corpus) auto
  have c: "corpus_ngrams (int 0) corpus \<noteq> []"
    by (rule corpus_ngrams_exists [OF s]) simp
  have "set (corpus_ngrams (int 0) corpus) \<subseteq> {''''}"
    using corpus_ngrams_lowercase [of corpus UNIV _ 0] by auto
  with c have grams: "set (corpus_ngrams 0 corpus) = {''''}"
    by (cases "corpus_ngrams 0 corpus") auto
  have k: "all_possible_ngrams 0 = Some []" by (rule all_possible_ngrams_zero)
  from c have c0: "corpus_ngrams 0 corpus \<noteq> []" by simp
  from ngram_values_Inr [OF k c0] obtain scored where
    sc: "scored_table 0 corpus [] = Inr scored"
    and t: "ngram_values corpus 0 True
       = Inr (readjust (of_int \<lceil>Max ((\<lambda>(g, v). idf v) ` set scored)\<rceil>) scored)"
      "ngram_values corpus 0 False = Inr scored"
    by blast
  have "set (map fst scored) = {''''}"
    using keys_scored_table [OF sc] grams by simp
  with distinct_scored_table [OF sc] have "map fst scored = ['''']"
    by (rule distinct_singleton)
  with t show ?thesis by (cases r) (simp_all add: keys_readjust)
qed

lemma ngram_values_a_b_scored:
  "ngram_values [''a'', ''b''] 1 False =
     Inr ([(''a'', \<lparr>string_frequency = 1, total_frequency = 1, idf = 0\<rparr>),
           (''b'', \<lparr>string_frequency = 1, total_frequency = 1, idf = 0\<rparr>)]
          @ map (\<lambda>letter. ([letter], \<lparr>string_frequency = 0, total_frequency = 0, idf = 0\<rparr>))
              ''cdefghijklmnopqrstuvwxyz'')"
  by (simp add: eval_defs all_possible_ngrams_1)

lemma py_pow_not_too_short: "py_pow x y \<noteq> Inl TooShortToTest"
  by (simp add: py_pow_def)

lemma ngram_term_not_too_short: "ngram_term sc item \<noteq> Inl TooShortToTest"
  by (cases item) (auto simp: ngram_term_def py_pow_def split: option.splits sum.splits if_splits)

lemma py_sum_Inl: "py_sum f xs acc = Inl e \<Longrightarrow> \<exists>x \<in> set xs. f x = Inl e"
  by (induction xs arbitrary: acc) (auto split: sum.splits)

lemma score_function_not_too_short: "score_function sc s \<noteq> Inl TooShortToTest"
proof
  assume a: "score_function sc s = Inl TooShortToTest"
  let ?grams = "ngrams s (int (sc_ngram_length sc))"
  from a have "py_sum (ngram_term sc) (fold count_incr ?grams []) 0 = Inl TooShortToTest"
    by (auto simp: score_function_def Let_def py_pow_not_too_short split: sum.splits)
  from py_sum_Inl [OF this] show False by (simp add: ngram_term_not_too_short)
qed

lemma lower_char_tab: "lower_char c = CHR 0x09 \<longleftrightarrow> c = CHR 0x09"
proof (cases "map_of (zip ascii_uppercase ascii_lowercase) c")
  case None
  then show ?thesis by (simp add: lower_char_def)
next
  case (Some l)
  then have "(c, l) \<in> set (zip ascii_uppercase ascii_lowercase)" by (rule map_of_SomeD)
  then have "c \<in> set ascii_uppercase" "l \<in> set ascii_lowercase"
    by (auto dest: set_zip_leftD set_zip_rightD)
  then have "c \<noteq> CHR 0x09" "l \<noteq> CHR 0x09"
    by (auto simp: ascii_uppercase_def ascii_lowercase_def)
  with Some show ?thesis by (simp add: lower_char_def)
qed

lemma tab_lower: "CHR 0x09 \<in> set (lower s) \<longleftrightarrow> CHR 0x09 \<in> set s"
proof -
  have "CHR 0x09 \<in> set (lower s) \<longleftrightarrow> (\<exists>c \<in> set s. lower_char c = CHR 0x09)"
    by (simp add: lower_def image_iff eq_commute)
  then show ?thesis by (simp add: lower_char_tab)
qed

lemma normalize_tabs:
  "translate_delchars (lower (replicate L (CHR 0x09))) = replicate L (CHR 0x09)"
proof -
  have "lower_char (CHR 0x09) = CHR 0x09" by (simp add: lower_char_tab)
  then have "lower (replicate L (CHR 0x09)) = replicate L (CHR 0x09)"
    by (simp add: lower_def)
  moreover have "CHR 0x09 \<notin> set delchars"
    by (simp add: delchars_def punctuation_def digits_def)
  ultimately show ?thesis by (simp add: translate_delchars_def)
qed

lemma ngrams_replicate:
  assumes "n \<le> L"
  shows "ngrams (replicate L c) (int n) = replicate (L - n + 1) (replicate n c)"
proof (rule replicate_eqI)
  show "length (ngrams (replicate L c) (int n)) = L - n + 1"
    using assms by (simp add: length_ngrams)
next
  fix g assume "g \<in> set (ngrams (replicate L c) (int n))"
  then obtain i where "i + n \<le> length (replicate L c)" "g = take n (drop i (replicate L c))"
    by (auto dest!: in_ngramsD)
  then show "g = replicate n c" by (simp add: min_def)
qed

lemma fold_count_incr_same: "fold count_incr (replicate m g) [(g, c)] = [(g, c + m)]"
  by (induction m arbitrary: c) (simp_all add: count_incr_def)

lemma fold_count_incr_replicate: "fold count_incr (replicate (Suc m) g) [] = [(g, Suc m)]"
  using fold_count_incr_same [of m g 1] by (simp add: count_incr_def)

lemma tfidf_score_function_Inr:
  assumes "t \<noteq> []"
  shows "tfidf_score_function t thr lexp rexp =
     Inr \<lparr>sc_ngram_freq = t,
          sc_max_freq = Max ((\<lambda>(g, v). total_frequency v) ` set t),
          sc_ngram_length = length (fst (hd t)), sc_len_threshold = thr,
          sc_len_penalty_exp = lexp, sc_repetition_penalty_exp = rexp\<rparr>"
proof -
  from assms obtain k v rest where t: "t = (k, v) # rest"
    by (cases t) auto
  have "highest_total_frequency t = Inr (Max ((\<lambda>(g, v). total_frequency v) ` set t))"
    using assms by (simp add: highest_total_frequency_def py_max_Inr)
  then show ?thesis by (simp add: tfidf_score_function_def) (simp add: t)
qed

lemma score_function_unfold:
  "score_function sc s =
     (case py_pow (nat (max 0 (int (length (ngrams s (int (sc_ngram_length sc))))
                                - sc_len_threshold sc))) (sc_len_penalty_exp sc) of
        Inl e \<Rightarrow> Inl e
      | Inr length_penalty \<Rightarrow>
          (case py_sum (ngram_term sc)
                  (fold count_incr (ngrams s (int (sc_ngram_length sc))) []) 0 of
             Inl e \<Rightarrow> Inl e
           | Inr x \<Rightarrow>
               Inr ((x + length_penalty)
                    / (1 + real (length (ngrams s (int (sc_ngram_length sc))))))))"
  by (simp add: score_function_def Let_def)

lemma ngram_values_keys:
  assumes "ngram_values corpus n r = Inr t"
  obtains keys where "all_possible_ngrams n = Some keys"
    "fst ` set t = set keys \<union> set (corpus_ngrams n corpus)" "t \<noteq> []" "distinct (map fst t)"
proof -
  from ngram_values_InrD [OF assms] obtain keys scored where
    k: "all_possible_ngrams n = Some keys"
    and sc: "scored_table n corpus keys = Inr scored" "scored \<noteq> []"
    and t: "t = (if r then readjust (of_int \<lceil>Max ((\<lambda>(g, v). idf v) ` set scored)\<rceil>) scored
            else scored)"
    by blast
  have m: "map fst t = map fst scored" by (simp add: t keys_readjust)
  have "set (map fst t) = set (map fst scored)" by (simp only: m)
  then have 1: "fst ` set t = set keys \<union> set (corpus_ngrams n corpus)"
    by (simp add: keys_scored_table [OF sc(1)])
  from sc(2) m have 2: "t \<noteq> []" by auto
  have 3: "distinct (map fst t)" by (simp only: m distinct_scored_table [OF sc(1)])
  show ?thesis by (rule that [OF k 1 2 3])
qed

lemma ngram_counts:
  "distinct (map fst (fold count_incr grams []))"
  "set (fold count_incr grams []) = (\<lambda>g. (g, count_list grams g)) ` set grams"
proof -
  let ?c = "fold count_incr grams []"
  show d: "distinct (map fst ?c)" by (simp add: distinct_fold_count_incr)
  have m: "map_of ?c g = (if g \<in> set grams then Some (count_list grams g) else None)" for g
    by (simp add: map_of_fold_count_incr)
  show "set ?c = (\<lambda>g. (g, count_list grams g)) ` set grams"
  proof (intro set_eqI iffI)
    fix p assume p: "p \<in> set ?c"
    obtain g c where gc: "p = (g, c)" by (cases p)
    with p d have "map_of ?c g = Some c" by simp
    then show "p \<in> (\<lambda>g. (g, count_list grams g)) ` set grams"
      unfolding m gc by (auto split: if_splits)
  next
    fix p assume "p \<in> (\<lambda>g. (g, count_list grams g)) ` set grams"
    then obtain g where g: "g \<in> set grams" "p = (g, count_list grams g)" by auto
    then have "map_of ?c g = Some (count_list grams g)" by (simp add: m)
    then show "p \<in> set ?c" unfolding g(2) by (rule map_of_SomeD)
  qed
qed

lemma py_pow_pos: "0 < c \<Longrightarrow> py_pow c y = Inr (real c powr y)"
  by (simp add: py_pow_def)

lemma py_pow_exp_pos: "0 < y \<Longrightarrow> py_pow c y = Inr (real c powr y)"
  by (simp add: py_pow_def)

lemma ngram_term_Inr:
  assumes "map_of (sc_ngram_freq sc) g = Some v" "0 < c" "0 < sc_max_freq sc"
  shows "ngram_term sc (g, c)
     = Inr (spec_contribution (idf v) c (sc_repetition_penalty_exp sc) (sc_max_freq sc))"
  using assms by (simp add: ngram_term_def py_pow_pos spec_contribution_def)

lemma py_sum_Inr:
  "\<forall>x \<in> set xs. f x = Inr (F x) \<Longrightarrow> py_sum f xs acc = Inr (acc + sum_list (map F xs))"
  by (induction xs arbitrary: acc) (simp_all add: add.assoc)

lemma sum_over_counts:
  "sum_list (map F (fold count_incr grams []))
     = (\<Sum>g \<in> set grams. F (g, count_list grams g))"
proof -
  let ?c = "fold count_incr grams []"
  have "distinct ?c" using ngram_counts(1) [of grams] by (simp add: distinct_map)
  then have "sum_list (map F ?c) = sum F (set ?c)" by (rule sum_list_distinct_conv_sum_set)
  also have "\<dots> = sum F ((\<lambda>g. (g, count_list grams g)) ` set grams)"
    by (simp only: ngram_counts(2))
  also have "\<dots> = (\<Sum>g \<in> set grams. F (g, count_list grams g))"
    by (subst sum.reindex) (simp_all add: inj_on_def)
  finally show ?thesis .
qed

lemmas score_eval_defs = tfidf_score_function_def highest_total_frequency_def py_max_def
  score_function_def ngrams_def py_slice_def count_incr_def ngram_term_def py_pow_def Let_def
  ascii_lowercase_def

lemmas spec_eval_defs = spec_score_def spec_contribution_def spec_length_penalty_def

lemma score_function_eq_spec:
  assumes "tfidf_score_function weights thr lexp rexp = Inr sc"
    and "\<forall>g \<in> set (ngrams s (int (sc_ngram_length sc))). map_of weights g \<noteq> None"
    and "0 < lexp"
    and "ngrams s (int (sc_ngram_length sc)) = []
         \<or> 0 < Max ((\<lambda>(g, v). total_frequency v) ` set weights)"
  shows "score_function sc s = Inr (spec_score weights thr lexp rexp (int (sc_ngram_length sc)) s)"
proof -
  from assms(1) have ne: "weights \<noteq> []"
    by (auto simp: tfidf_score_function_def highest_total_frequency_def py_max_def
        split: sum.splits list.splits)
  let ?M = "Max ((\<lambda>(g, v). total_frequency v) ` set weights)"
  from assms(1) tfidf_score_function_Inr [OF ne, of thr lexp rexp]
  have sc: "sc_ngram_freq sc = weights" "sc_max_freq sc = ?M" "sc_len_threshold sc = thr"
    "sc_len_penalty_exp sc = lexp" "sc_repetition_penalty_exp sc = rexp"
    by auto
  let ?n = "int (sc_ngram_length sc)"
  let ?grams = "ngrams s ?n"
  let ?m = "length ?grams"
  let ?F = "\<lambda>(g, c). spec_contribution (idf (the (map_of weights g))) c rexp ?M"
  have pen: "py_pow (nat (max 0 (int ?m - thr))) lexp = Inr (spec_length_penalty ?m thr lexp)"
    using assms(3) by (simp add: py_pow_exp_pos spec_length_penalty_def)
  have terms: "\<forall>x \<in> set (fold count_incr ?grams []). ngram_term sc x = Inr (?F x)"
  proof
    fix x assume "x \<in> set (fold count_incr ?grams [])"
    then obtain g where g: "g \<in> set ?grams" "x = (g, count_list ?grams g)"
      unfolding ngram_counts(2) by auto
    from g(1) assms(2) obtain v where v: "map_of weights g = Some v" by auto
    from g(1) have "count_list ?grams g \<noteq> 0" by (simp only: count_list_0_iff not_not)
    then have c: "0 < count_list ?grams g" by simp
    from g(1) assms(4) have M: "0 < ?M" by auto
    show "ngram_term sc x = Inr (?F x)"
      unfolding g(2) using ngram_term_Inr [of sc g v "count_list ?grams g"] v c M
      by (simp add: sc)
  qed
  have total: "py_sum (ngram_term sc) (fold count_incr ?grams []) 0
      = Inr (\<Sum>g \<in> set ?grams. ?F (g, count_list ?grams g))"
    unfolding py_sum_Inr [OF terms] sum_over_counts by simp
  show ?thesis
    unfolding score_function_unfold sc pen total
    by (simp add: spec_score_def Let_def)
qed

lemma log2_8: "log 2 8 = 3"
proof -
  have "(8::real) = 2 powr 3" by simp
  then show ?thesis by (simp only: log_powr_cancel)
qed

lemma ngram_values_sixteen:
  "ngram_values
     [''a'', ''a'', ''a'', ''a'', ''a'', ''a'', ''a'', ''a'', ''a'',
      ''aa'', ''aaa'', ''aaaa'', ''aaaaa'', ''aaaaaa'', ''aaaaaaa'', ''b''] 1 True =
     Inr ([(''a'', \<lparr>string_frequency = 7, total_frequency = 36, idf = 1\<rparr>),
           (''b'', \<lparr>string_frequency = 1, total_frequency = 1, idf = 3\<rparr>)]
          @ map (\<lambda>letter. ([letter], \<lparr>string_frequency = 0, total_frequency = 0, idf = 3\<rparr>))
              ''cdefghijklmnopqrstuvwxyz'')"
  by (simp add: eval_defs all_possible_ngrams_1 log2_8 upt_rec)

lemma ngrams_windows_eq:
  "ngrams s (int n) = map (\<lambda>i. take n (drop i s)) [0..<length s + 1 - n]"
proof -
  have b: "nat (int (length s) - int n + 1) = length s + 1 - n" by linarith
  have "py_slice s (int i) (int i + int n) = take n (drop i s)" if "i < length s + 1 - n" for i
    by (rule py_slice_window) (use that in linarith)
  then show ?thesis by (simp add: ngrams_def b)
qed

lemma ngrams_append:
  "\<exists>rest. ngrams (s @ extra) (int n) = ngrams s (int n) @ rest"
proof -
  let ?A = "length s + 1 - n" and ?B = "length (s @ extra) + 1 - n"
  have AB: "?A \<le> ?B" by simp
  have same: "take n (drop i (s @ extra)) = take n (drop i s)" if "i < ?A" for i
  proof -
    from that have "i + n \<le> length s" by linarith
    then show ?thesis by simp
  qed
  have "[0..<?B] = [0..<?A] @ [?A..<?B]"
    using AB by (metis le_add_diff_inverse upt_add_eq_append zero_le)
  then have "ngrams (s @ extra) (int n)
      = map (\<lambda>i. take n (drop i (s @ extra))) [0..<?A]
        @ map (\<lambda>i. take n (drop i (s @ extra))) [?A..<?B]"
    unfolding ngrams_windows_eq by (simp only: map_append)
  also have "map (\<lambda>i. take n (drop i (s @ extra))) [0..<?A] = ngrams s (int n)"
    unfolding ngrams_windows_eq using same by simp
  finally show ?thesis by blast
qed

lemma spec_contribution_nonneg:
  "0 \<le> i \<Longrightarrow> 0 \<le> spec_contribution i c r M"
  by (simp add: spec_contribution_def)

lemma spec_contribution_mono:
  assumes "0 \<le> i" "0 \<le> r" "c \<le> c'"
  shows "spec_contribution i c r M \<le> spec_contribution i c' r M"
proof -
  have p: "real c powr r \<le> real c' powr r"
    using assms by (intro powr_mono2) simp_all
  have t: "0.5 + 0.5 * real c / real M \<le> 0.5 + 0.5 * real c' / real M"
    using assms(3) by (simp add: divide_right_mono)
  have "real c powr r * (0.5 + 0.5 * real c / real M)
      \<le> real c' powr r * (0.5 + 0.5 * real c' / real M)"
    by (rule mult_mono [OF p t]) simp_all
  then have "i * (real c powr r * (0.5 + 0.5 * real c / real M))
      \<le> i * (real c' powr r * (0.5 + 0.5 * real c' / real M))"
    using assms(1) by (rule mult_left_mono)
  then show ?thesis by (simp add: spec_contribution_def mult.assoc)
qed

lemma spec_length_penalty_mono:
  assumes "0 \<le> lexp" "m \<le> m'"
  shows "spec_length_penalty m thr lexp \<le> spec_length_penalty m' thr lexp"
  unfolding spec_length_penalty_def using assms by (intro powr_mono2) simp_all

lemma spec_score_unnormalised:
  "spec_score weights thr lexp rexp n s * (1 + real (length (ngrams s n)))
     = (\<Sum>g \<in> set (ngrams s n).
          spec_contribution (idf (the (map_of weights g))) (count_list (ngrams s n) g) rexp
            (Max ((\<lambda>(g, v). total_frequency v) ` set weights)))
       + spec_length_penalty (length (ngrams s n)) thr lexp"
proof -
  have "1 + real (length (ngrams s n)) \<noteq> 0"
    by (metis add_nonneg_eq_0_iff of_nat_0_le_iff zero_le_one zero_neq_one)
  then show ?thesis by (simp add: spec_score_def Let_def)
qed

section \<open>The claims\<close>

text \<open>
  Claim C9. For \<open>1 \<le> n \<le> len(s)\<close> the n-grams of \<open>s\<close> are its \<open>len(s) - n + 1\<close>
  windows of length \<open>n\<close>, the \<open>i\<close>-th starting at position \<open>i\<close>; for \<open>n > len(s)\<close>
  the result is the empty list.
\<close>

theorem ngrams_windows:
  "(1 \<le> n \<and> n \<le> length s \<longrightarrow>
      length (ngrams s (int n)) = length s - n + 1
      \<and> (\<forall>i < length s - n + 1. ngrams s (int n) ! i = take n (drop i s)
            \<and> length (ngrams s (int n) ! i) = n))
   \<and> (int (length s) < k \<longrightarrow> ngrams s k = [])"
proof (intro conjI impI allI)
  assume h: "1 \<le> n \<and> n \<le> length s"
  have len: "nat (int (length s) - int n + 1) = length s - n + 1"
    using h by linarith
  show "length (ngrams s (int n)) = length s - n + 1"
    by (simp add: ngrams_def len)
  fix i assume i: "i < length s - n + 1"
  then have "i + n \<le> length s" using h by linarith
  then have w: "py_slice s (int i) (int i + int n) = take n (drop i s)"
    by (rule py_slice_window)
  have nth: "ngrams s (int n) ! i = py_slice s (int i) (int i + int n)"
    using i by (simp add: ngrams_def len del: upt_Suc)
  show "ngrams s (int n) ! i = take n (drop i s)"
    using nth w by simp
  show "length (ngrams s (int n) ! i) = n"
    using nth w \<open>i + n \<le> length s\<close> by simp
next
  assume "int (length s) < k"
  then have "nat (int (length s) - k + 1) = 0" by simp
  then show "ngrams s k = []" by (simp add: ngrams_def)
qed

theorem ngrams_windows_witness:
  "length (ngrams ''hello'' 4) = 2
   \<and> ngrams ''hello'' 4 ! 0 = ''hell''
   \<and> ngrams ''hello'' 4 ! 1 = ''ello''
   \<and> ngrams ''abc'' 4 = []"
proof -
  have a: "(1::nat) \<le> 4 \<and> (4::nat) \<le> length ''hello''" by simp
  have b: "int (length ''abc'') < 4" by simp
  from ngrams_windows [of 4 "''hello''" 4] a
  have c: "length (ngrams ''hello'' (int 4)) = length ''hello'' - 4 + 1"
    and d: "\<forall>i < length ''hello'' - 4 + 1. ngrams ''hello'' (int 4) ! i = take 4 (drop i ''hello'')
            \<and> length (ngrams ''hello'' (int 4) ! i) = 4"
    by blast+
  from d have "ngrams ''hello'' (int 4) ! 0 = take 4 (drop 0 ''hello'')"
    and "ngrams ''hello'' (int 4) ! 1 = take 4 (drop 1 ''hello'')"
    by simp_all
  moreover from ngrams_windows [of 4 "''abc''" 4] b have "ngrams ''abc'' 4 = []" by blast
  ultimately show ?thesis using c by simp
qed

text \<open>
  Claim C10, as the code has it. For a window length \<open>n \<ge> 1\<close> and a corpus whose strings,
  once lower-cased, hold lowercase letters only, one of them at least \<open>n\<close> characters
  long, the builder returns a table with exactly \<open>26 ^ n\<close> entries and distinct keys, in
  which every lowercase n-gram of length \<open>n\<close> is found, and every idf lies between \<open>-1\<close>
  and the ceiling of the binary logarithm of the number of corpus strings.
\<close>

theorem ngram_values_table_size:
  assumes "1 \<le> n"
    and "\<forall>s \<in> set corpus. set (lower s) \<subseteq> set ascii_lowercase"
    and "\<exists>s \<in> set corpus. n \<le> length s"
  shows "\<exists>t. ngram_values corpus (int n) True = Inr t
           \<and> length t = 26 ^ n
           \<and> distinct (map fst t)
           \<and> (\<forall>g. length g = n \<and> set g \<subseteq> set ascii_lowercase \<longrightarrow> map_of t g \<noteq> None)
           \<and> (\<forall>(g, v) \<in> set t. - 1 \<le> idf v \<and> idf v \<le> of_int \<lceil>log 2 (real (length corpus))\<rceil>)"
proof -
  from assms(1) obtain k where n: "n = Suc k" by (cases n) simp_all
  from all_possible_ngrams_pos [of k] obtain keys where
    keys: "all_possible_ngrams (int n) = Some keys" "distinct keys" "length keys = 26 ^ n"
    "set keys = {g. length g = n \<and> set g \<subseteq> set ascii_lowercase}"
    unfolding n by blast
  from assms(3) obtain s where "s \<in> set corpus" "n \<le> length s" by blast
  then have c: "corpus_ngrams (int n) corpus \<noteq> []"
    by (rule corpus_ngrams_exists)
  then have ce: "corpus \<noteq> []" by (rule corpus_ngrams_nonempty)
  from ngram_values_Inr [OF keys(1) c] obtain scored where
    sc: "scored_table (int n) corpus keys = Inr scored" "scored \<noteq> []"
    and t: "ngram_values corpus (int n) True
       = Inr (readjust (of_int \<lceil>Max ((\<lambda>(g, v). idf v) ` set scored)\<rceil>) scored)"
    by blast
  let ?t = "readjust (of_int \<lceil>Max ((\<lambda>(g, v). idf v) ` set scored)\<rceil>) scored"
  have sub: "set (corpus_ngrams (int n) corpus) \<subseteq> set keys"
    using corpus_ngrams_lowercase [OF assms(2)] by (auto simp: keys(4))
  then have u: "set keys \<union> set (corpus_ngrams (int n) corpus) = set keys" by auto
  have len: "length ?t = 26 ^ n"
    using ngram_values_lookup(3) [OF sc(1)] distinct_card [OF keys(2)]
    by (simp add: u keys(3))
  have dist: "distinct (map fst ?t)" by (rule ngram_values_lookup(2) [OF sc(1)])
  have look: "\<forall>g. length g = n \<and> set g \<subseteq> set ascii_lowercase \<longrightarrow> map_of ?t g \<noteq> None"
  proof (intro allI impI)
    fix g assume "length g = n \<and> set g \<subseteq> set ascii_lowercase"
    then have "g \<in> fst ` set ?t"
      unfolding ngram_values_lookup(1) [OF sc(1)] u keys(4) by simp
    then show "map_of ?t g \<noteq> None" by (simp add: map_of_eq_None_iff)
  qed
  have bounds: "\<forall>(g, v) \<in> set ?t.
      - 1 \<le> idf v \<and> idf v \<le> of_int \<lceil>log 2 (real (length corpus))\<rceil>"
    using idf_bounds_final [OF sc ce] by auto
  from t len dist look bounds show ?thesis by blast
qed

theorem ngram_values_table_size_witness:
  "\<exists>t. ngram_values [''ab'', ''C''] (int 1) True = Inr t
           \<and> length t = 26 ^ 1
           \<and> distinct (map fst t)
           \<and> (\<forall>g. length g = 1 \<and> set g \<subseteq> set ascii_lowercase \<longrightarrow> map_of t g \<noteq> None)
           \<and> (\<forall>(g, v) \<in> set t. - 1 \<le> idf v
                 \<and> idf v \<le> of_int \<lceil>log 2 (real (length [''ab'', ''C'']))\<rceil>)"
proof -
  have 1: "(1::nat) \<le> 1" by simp
  have 2: "\<forall>s \<in> set [''ab'', ''C'']. set (lower s) \<subseteq> set ascii_lowercase"
    by (simp add: lower_def lower_char_def ascii_lowercase_def ascii_uppercase_def)
  have 3: "\<exists>s \<in> set [''ab'', ''C'']. 1 \<le> length s" by simp
  show ?thesis by (rule ngram_values_table_size [OF 1 2 3])
qed

text \<open>
  Claim C10 as stated fails twice. A corpus that is not empty but holds no string of
  \<open>n\<close> characters has no n-gram, and \<^verbatim>\<open>max\<close> of the empty list of counts raises;
  an n-gram with a character that is no letter is added to the 26 keys.
\<close>

theorem ngram_values_table_size_counterexample:
  "ngram_values [''''] 1 True = Inl MaxEmptySequence
   \<and> map_sum id length (ngram_values [''1''] 1 True) = Inr 27"
  by (simp add: ngram_values_empty_string ngram_values_digit ascii_lowercase_def)

text \<open>
  Claim C1, as the code has it. \<^verbatim>\<open>highest_idf\<close> takes the maximum over the whole
  table, the entries still at idf 0 included, so the value given to an n-gram whose
  \<open>string_frequency\<close> is 0 in the built table is the larger of 0 and the ceiling of the
  maximum idf over the n-grams with \<open>string_frequency > 0\<close>, and 0 when there is no such
  n-gram.
\<close>

theorem unseen_idf:
  assumes "ngram_values corpus n True = Inr t" "(g, d) \<in> set t" "string_frequency d = 0"
  shows "idf d = (if seen_idfs t = [] then 0 else max 0 (of_int \<lceil>Max (set (seen_idfs t))\<rceil>))"
proof -
  from ngram_values_InrD [OF assms(1)] obtain keys scored where
    sc: "scored_table n corpus keys = Inr scored" and ne: "scored \<noteq> []"
    and t: "t = readjust (of_int \<lceil>Max ((\<lambda>(g, v). idf v) ` set scored)\<rceil>) scored"
    by (metis (full_types))
  let ?I = "(\<lambda>(g, v). idf v) ` set scored"
  let ?h = "Max ?I"
  let ?new = "\<lparr>string_frequency = 0, total_frequency = 0, idf = of_int \<lceil>?h\<rceil>\<rparr>"
  have entries: "1 \<le> string_frequency v" if "(g, v) \<in> set scored" "idf v \<noteq> 0" for g v
    using scored_table_entries [OF sc that(1)] that(2) by (auto simp: zero_entry_def)
  from assms(2) obtain v where v: "(g, v) \<in> set scored"
    and dv: "d = (if idf v = 0 then ?new else v)"
    unfolding t in_readjust by blast
  have v0: "idf v = 0"
  proof (rule ccontr)
    assume "idf v \<noteq> 0"
    with dv entries [OF v] assms(3) show False by simp
  qed
  with dv have d: "idf d = of_int \<lceil>?h\<rceil>" by simp
  from v v0 have zero_in: "0 \<in> ?I" by force
  have seen: "set (seen_idfs t) = ?I - {0}"
  proof (intro set_eqI iffI)
    fix x assume "x \<in> set (seen_idfs t)"
    then obtain g' d' where "(g', d') \<in> set t" "0 < string_frequency d'" "x = idf d'"
      unfolding set_seen_idfs by blast
    then obtain v' where "(g', v') \<in> set scored" "d' = (if idf v' = 0 then ?new else v')"
      unfolding t in_readjust by blast
    with \<open>0 < string_frequency d'\<close> \<open>x = idf d'\<close> show "x \<in> ?I - {0}"
      by (cases "idf v' = 0") force+
  next
    fix x assume "x \<in> ?I - {0}"
    then obtain g' v' where v': "(g', v') \<in> set scored" "x = idf v'" "idf v' \<noteq> 0" by auto
    then have "(g', v') \<in> set t" unfolding t in_readjust by auto
    moreover from entries [OF v'(1,3)] have "0 < string_frequency v'" by simp
    ultimately show "x \<in> set (seen_idfs t)" unfolding set_seen_idfs using v'(2) by blast
  qed
  have fin: "finite ?I" by simp
  show ?thesis
  proof (cases "seen_idfs t = []")
    case True
    then have "?I - {0} = {}" using seen by simp
    with zero_in have "?I = {0}" by blast
    then have "?h = 0" by simp
    with d True show ?thesis by simp
  next
    case False
    then have "set (seen_idfs t) \<noteq> {}" by simp
    then have nonempty: "?I - {0} \<noteq> {}" unfolding seen .
    have fin': "finite (?I - {0})" by simp
    have "?I = insert 0 (?I - {0})" using zero_in by blast
    then have "?h = Max (insert 0 (?I - {0}))" by (rule arg_cong)
    also have "\<dots> = max 0 (Max (?I - {0}))"
      by (rule Max_insert [OF fin' nonempty])
    finally have "?h = max 0 (Max (set (seen_idfs t)))" by (simp only: seen)
    with d False show ?thesis by (simp only: ceiling_max_zero if_False)
  qed
qed

theorem unseen_idf_witness:
  "\<exists>t. ngram_values [''a''] 1 True = Inr t
     \<and> (''b'', \<lparr>string_frequency = 0, total_frequency = 0, idf = 0\<rparr>) \<in> set t
     \<and> seen_idfs t = [- 1]
     \<and> idf \<lparr>string_frequency = 0, total_frequency = 0, idf = 0\<rparr>
         = (if seen_idfs t = [] then 0 else max 0 (of_int \<lceil>Max (set (seen_idfs t))\<rceil>))"
proof -
  let ?t = "(''a'', \<lparr>string_frequency = 1, total_frequency = 1, idf = - 1\<rparr>)
          # map (\<lambda>letter. ([letter], \<lparr>string_frequency = 0, total_frequency = 0, idf = 0\<rparr>))
              ''bcdefghijklmnopqrstuvwxyz''"
  let ?d = "\<lparr>string_frequency = 0, total_frequency = 0, idf = 0::real\<rparr>"
  have 1: "ngram_values [''a''] 1 True = Inr ?t" by (rule ngram_values_a)
  have 2: "(''b'', ?d) \<in> set ?t" by simp
  have 3: "string_frequency ?d = 0" by simp
  have 4: "seen_idfs ?t = [- 1]" by (simp add: seen_idfs_def)
  from unseen_idf [OF 1 2 3] 1 2 4 show ?thesis by blast
qed

text \<open>
  Claim C1 as stated fails on the corpus \<^verbatim>\<open>['a']\<close> with \<open>n = 1\<close>: the only n-gram
  with a positive \<open>string_frequency\<close> is \<^verbatim>\<open>'a'\<close>, whose idf is
  \<open>log2 (1 / 2) = -1\<close>, so the claimed value is \<open>-1\<close>; the table gives \<^verbatim>\<open>'b'\<close> the
  idf 0.
\<close>

theorem unseen_idf_counterexample:
  "case ngram_values [''a''] 1 True of
     Inl e \<Rightarrow> False
   | Inr t \<Rightarrow>
       map_of t ''b'' = Some \<lparr>string_frequency = 0, total_frequency = 0, idf = 0\<rparr>
       \<and> seen_idfs t = [- 1]
       \<and> of_int \<lceil>Max (set (seen_idfs t))\<rceil> = (- 1 :: real)"
  by (simp add: ngram_values_a seen_idfs_def)

text \<open>
  Claim C2 fails on the code, which contradicts its own docstring. The docstring of
  \<^verbatim>\<open>ngram_values\<close> says that \<^verbatim>\<open>readjust_zero_scores\<close> is about the n-grams that do
  not appear in the corpus at all, and that \<open>string_frequency\<close> still tells afterwards
  whether an n-gram appeared. The loop tests \<^verbatim>\<open>value.idf == 0\<close>, not
  \<open>string_frequency\<close>, so an n-gram that occurs in all but one of the corpus strings,
  whose idf is \<open>log2 (N / N) = 0\<close>, loses its counts. On the corpus \<^verbatim>\<open>['a', 'b']\<close> with
  \<open>n = 1\<close> the counting pass gives \<^verbatim>\<open>'a'\<close> the frequencies 1 and 1 (the table
  returned with \<^verbatim>\<open>readjust_zero_scores=False\<close>), and the table returned by default
  holds 0 and 0 for it.
\<close>

theorem readjust_resets_seen_ngram:
  "map_sum id (\<lambda>t. map_of t ''a'') (ngram_values [''a'', ''b''] 1 False)
     = Inr (Some \<lparr>string_frequency = 1, total_frequency = 1, idf = 0\<rparr>)
   \<and> map_sum id (\<lambda>t. map_of t ''a'') (ngram_values [''a'', ''b''] 1 True)
     = Inr (Some \<lparr>string_frequency = 0, total_frequency = 0, idf = 0\<rparr>)"
  by (simp add: ngram_values_a_b_scored ngram_values_a_b ascii_lowercase_def)

text \<open>
  Claim C4 fails on the code, whose comment reads "Lower-case the string and remove
  non-letters". The deleted characters are \<^verbatim>\<open>string.punctuation\<close>, \<^verbatim>\<open>string.digits\<close>
  and the space only: a tab and a newline survive the normalization.
\<close>

theorem delchars_keeps_tab:
  "translate_delchars (lower (''Ab 1-c'' @ [CHR 0x09, CHR 0x0A] @ ''D''))
     = ''abc'' @ [CHR 0x09, CHR 0x0A] @ ''d''"
  by (simp add: translate_delchars_def lower_def lower_char_def delchars_def punctuation_def
      digits_def ascii_lowercase_def ascii_uppercase_def)

text \<open>
  Claim C6, as the code has it. The builder fails when the corpus is empty and when
  \<open>n < 0\<close>. It has no check of \<open>n\<close>: for \<open>n = 0\<close>, \<^verbatim>\<open>all_possible_ngrams\<close> returns
  the empty list, every string has the empty string as its n-gram, and the builder
  returns a table whose only key is the empty string.
\<close>

theorem ngram_values_failure:
  "(string_list = [] \<or> n < 0 \<longrightarrow> (\<exists>e. ngram_values string_list n r = Inl e))
   \<and> (string_list \<noteq> [] \<and> n = 0 \<longrightarrow>
        (\<exists>t. ngram_values string_list n r = Inr t \<and> map fst t = ['''']))"
proof (intro conjI impI)
  assume h: "string_list = [] \<or> n < 0"
  show "\<exists>e. ngram_values string_list n r = Inl e"
  proof (cases "n < 0")
    case True
    then show ?thesis by (simp add: ngram_values_neg)
  next
    case False
    with h have "0 \<le> n" "corpus_ngrams n string_list = []"
      by (simp_all add: corpus_ngrams_def)
    then show ?thesis by (simp add: ngram_values_no_ngrams)
  qed
next
  assume "string_list \<noteq> [] \<and> n = 0"
  then show "\<exists>t. ngram_values string_list n r = Inr t \<and> map fst t = ['''']"
    using ngram_values_zero [of string_list r] by simp
qed

theorem ngram_values_failure_witness:
  "(\<exists>e. ngram_values [] 4 True = Inl e)
   \<and> (\<exists>e. ngram_values [''abc''] (- 1) True = Inl e)
   \<and> (\<exists>t. ngram_values [''abc''] 0 True = Inr t \<and> map fst t = [''''])"
  using ngram_values_failure [of "[]" 4 True] ngram_values_failure [of "[''abc'']" "- 1" True]
    ngram_values_failure [of "[''abc'']" 0 True]
  by simp

text \<open>
  Claim C6 as stated fails for \<open>n = 0\<close>: on the corpus \<^verbatim>\<open>['a']\<close> the builder returns
  a weight table.
\<close>

theorem ngram_values_failure_counterexample:
  "ngram_values [''a''] 0 True =
     Inr [('''', \<lparr>string_frequency = 1, total_frequency = 2, idf = - 1\<rparr>)]"
  by (rule ngram_values_n0)

text \<open>
  Claim C7. The detector raises \<^verbatim>\<open>ValueError('Too short to test')\<close> exactly when the
  normalized string is shorter than \<open>min_length\<close>, whatever the scorer is (so the scorer
  has no part in it): it does at length \<open>min_length - 1\<close> and does not at length
  \<open>min_length\<close>. The same holds of every detector \<^verbatim>\<open>generate_nonsense_detector\<close> returns.
  When the error is raised the result is that error, hence no verdict.
\<close>

theorem too_short_iff:
  "((nonsense_detector sc min_length min_score raw = Inl TooShortToTest)
      = (int (length (translate_delchars (lower raw))) < min_length))
   \<and> (int (length (translate_delchars (lower raw))) = min_length - 1
        \<longrightarrow> nonsense_detector sc min_length min_score raw = Inl TooShortToTest)
   \<and> (int (length (translate_delchars (lower raw))) = min_length
        \<longrightarrow> nonsense_detector sc min_length min_score raw \<noteq> Inl TooShortToTest)
   \<and> (generate_nonsense_detector ngram_freq pickle min_length min_score thr lexp rexp = Inr detect
        \<longrightarrow> (detect raw = Inl TooShortToTest)
            = (int (length (translate_delchars (lower raw))) < min_length))"
proof -
  have iff: "(nonsense_detector sc' min_length min_score raw = Inl TooShortToTest)
      = (int (length (translate_delchars (lower raw))) < min_length)" for sc'
    using score_function_not_too_short [of sc' "translate_delchars (lower raw)"]
    by (auto simp: nonsense_detector_def Let_def split: sum.splits)
  have "(detect raw = Inl TooShortToTest)
      = (int (length (translate_delchars (lower raw))) < min_length)"
    if "generate_nonsense_detector ngram_freq pickle min_length min_score thr lexp rexp = Inr detect"
  proof -
    from that obtain sc' where "detect = nonsense_detector sc' min_length min_score"
      by (auto simp: generate_nonsense_detector_def split: option.splits sum.splits)
    then show ?thesis by (simp add: iff)
  qed
  with iff [of sc] show ?thesis by simp
qed

theorem too_short_iff_witness:
  "nonsense_detector
     \<lparr>sc_ngram_freq = [], sc_max_freq = 1, sc_ngram_length = 4, sc_len_threshold = 25,
      sc_len_penalty_exp = 1, sc_repetition_penalty_exp = 1\<rparr> 4 8 ''Ab-1c'' = Inl TooShortToTest
   \<and> nonsense_detector
     \<lparr>sc_ngram_freq = [], sc_max_freq = 1, sc_ngram_length = 4, sc_len_threshold = 25,
      sc_len_penalty_exp = 1, sc_repetition_penalty_exp = 1\<rparr> 3 8 ''Ab-1c'' \<noteq> Inl TooShortToTest"
proof -
  let ?sc = "\<lparr>sc_ngram_freq = [], sc_max_freq = 1, sc_ngram_length = 4, sc_len_threshold = 25,
      sc_len_penalty_exp = 1, sc_repetition_penalty_exp = 1\<rparr>"
  have n: "translate_delchars (lower ''Ab-1c'') = ''abc''"
    by (simp add: translate_delchars_def lower_def lower_char_def delchars_def punctuation_def
      digits_def ascii_lowercase_def ascii_uppercase_def)
  have a: "int (length (translate_delchars (lower ''Ab-1c''))) = 4 - 1" by (simp add: n)
  have b: "int (length (translate_delchars (lower ''Ab-1c''))) = 3" by (simp add: n)
  from too_short_iff [of ?sc 4 8 "''Ab-1c''"] a
  have 1: "nonsense_detector ?sc 4 8 ''Ab-1c'' = Inl TooShortToTest" by blast
  from too_short_iff [of ?sc 3 8 "''Ab-1c''"] b
  have 2: "nonsense_detector ?sc 3 8 ''Ab-1c'' \<noteq> Inl TooShortToTest" by blast
  from 1 2 show ?thesis by (rule conjI)
qed

text \<open>
  Claim C5. Take any table the builder returns for a window length \<open>n \<ge> 1\<close> and a corpus
  without tab characters, and any detector \<^verbatim>\<open>generate_nonsense_detector\<close> makes from it.
  There is a raw input whose normalized form is at least \<open>min_length\<close> long and still
  holds a tab, on which the detector returns neither a verdict nor the too-short error:
  the lookup of an n-gram holding the tab raises \<^verbatim>\<open>KeyError\<close>. (The input is a run of
  tabs long enough to pass the length check and the length threshold.)
\<close>

theorem tab_key_error:
  assumes "ngram_values corpus (int n) r = Inr t" and "1 \<le> n"
    and "\<forall>s \<in> set corpus. CHR 0x09 \<notin> set s"
  shows "\<exists>raw g. min_length \<le> int (length (translate_delchars (lower raw)))
     \<and> CHR 0x09 \<in> set (translate_delchars (lower raw))
     \<and> CHR 0x09 \<in> set g
     \<and> (case generate_nonsense_detector t pickle min_length min_score thr lexp rexp of
          Inl e \<Rightarrow> False
        | Inr detect \<Rightarrow> detect raw = Inl (KeyError g))"
proof -
  let ?tab = "CHR 0x09"
  from assms(2) obtain j where n: "n = Suc j" by (cases n) simp_all
  from ngram_values_keys [OF assms(1)] obtain keys where
    k: "all_possible_ngrams (int n) = Some keys"
    and dom: "fst ` set t = set keys \<union> set (corpus_ngrams (int n) corpus)"
    and ne: "t \<noteq> []" by blast
  from all_possible_ngrams_pos [of j] k
  have keys: "set keys = {g. length g = n \<and> set g \<subseteq> set ascii_lowercase}"
    unfolding n by auto
  have corpus_keys: "length g = n \<and> ?tab \<notin> set g" if "g \<in> set (corpus_ngrams (int n) corpus)" for g
  proof -
    have "\<forall>s \<in> set corpus. set (lower s) \<subseteq> - {?tab}"
      using assms(3) by (auto simp: tab_lower)
    from corpus_ngrams_lowercase [OF this that] show ?thesis by auto
  qed
  have key_facts: "length g = n \<and> ?tab \<notin> set g" if "g \<in> fst ` set t" for g
  proof -
    from that dom have "g \<in> set keys \<or> g \<in> set (corpus_ngrams (int n) corpus)" by auto
    then show ?thesis
    proof
      assume "g \<in> set keys"
      then have "length g = n" "set g \<subseteq> set ascii_lowercase" by (simp_all add: keys)
      moreover have "?tab \<notin> set ascii_lowercase" by (simp add: ascii_lowercase_def)
      ultimately show ?thesis by auto
    qed (rule corpus_keys)
  qed
  from ne have "fst (hd t) \<in> fst ` set t" by (cases t) auto
  then have len: "length (fst (hd t)) = n" using key_facts by blast
  define sc where "sc = \<lparr>sc_ngram_freq = t,
      sc_max_freq = Max ((\<lambda>(g, v). total_frequency v) ` set t),
      sc_ngram_length = n, sc_len_threshold = thr,
      sc_len_penalty_exp = lexp, sc_repetition_penalty_exp = rexp\<rparr>"
  have gen: "generate_nonsense_detector t pickle min_length min_score thr lexp rexp
      = Inr (nonsense_detector sc min_length min_score)"
    by (simp add: generate_nonsense_detector_def ne tfidf_score_function_Inr len sc_def)
  define m where "m = nat (max 0 thr) + nat (max 0 min_length)"
  define L where "L = n + m"
  define raw where "raw = replicate L ?tab"
  define g where "g = replicate n ?tab"
  have norm: "translate_delchars (lower raw) = raw"
    by (simp add: raw_def normalize_tabs)
  have long: "min_length \<le> int (length raw)"
    by (simp add: raw_def L_def m_def)
  have tab_raw: "?tab \<in> set raw" using assms(2) by (simp add: raw_def L_def)
  have tab_g: "?tab \<in> set g" using assms(2) by (simp add: g_def)
  have grams: "ngrams raw (int n) = replicate (Suc m) g"
    using ngrams_replicate [of n L ?tab] by (simp add: raw_def g_def L_def)
  have counts: "fold count_incr (ngrams raw (int n)) [] = [(g, Suc m)]"
    by (simp only: grams fold_count_incr_replicate)
  have "g \<notin> fst ` set t" using key_facts tab_g by blast
  then have miss: "map_of t g = None" by (simp add: map_of_eq_None_iff)
  have kerr: "ngram_term sc (g, Suc m) = Inl (KeyError g)"
    by (simp add: ngram_term_def sc_def miss)
  have fields: "sc_ngram_length sc = n" "sc_len_threshold sc = thr" "sc_len_penalty_exp sc = lexp"
    by (simp_all add: sc_def)
  have glen: "length (ngrams raw (int n)) = Suc m" by (simp add: grams)
  have "thr < int (Suc m)" by (simp add: m_def)
  then have "nat (max 0 (int (Suc m) - thr)) \<noteq> 0" by simp
  then have "\<exists>p. py_pow (nat (max 0 (int (Suc m) - thr))) lexp = Inr p"
    unfolding py_pow_def by (simp only: if_False) simp
  then obtain p where
    p: "py_pow (nat (max 0 (int (length (ngrams raw (int n))) - thr))) lexp = Inr p"
    unfolding glen by blast
  have total: "py_sum (ngram_term sc) (fold count_incr (ngrams raw (int n)) []) 0
      = Inl (KeyError g)"
    by (simp only: counts py_sum.simps kerr sum.case)
  have "score_function sc raw = Inl (KeyError g)"
    by (simp only: score_function_unfold fields p total sum.case)
  with long have "nonsense_detector sc min_length min_score raw = Inl (KeyError g)"
    by (simp add: nonsense_detector_def norm Let_def)
  with norm long tab_raw tab_g gen show ?thesis
    by (intro exI [of _ raw] exI [of _ g]) simp
qed

theorem tab_key_error_witness:
  "\<exists>raw g. 6 \<le> int (length (translate_delchars (lower raw)))
     \<and> CHR 0x09 \<in> set (translate_delchars (lower raw))
     \<and> CHR 0x09 \<in> set g
     \<and> (case generate_nonsense_detector
               ((''a'', \<lparr>string_frequency = 1, total_frequency = 1, idf = - 1\<rparr>)
                # map (\<lambda>letter. ([letter], \<lparr>string_frequency = 0, total_frequency = 0, idf = 0\<rparr>))
                    ''bcdefghijklmnopqrstuvwxyz'')
               None 6 8.47 25 0.9233 0.9674 of
          Inl e \<Rightarrow> False
        | Inr detect \<Rightarrow> detect raw = Inl (KeyError g))"
proof -
  have 1: "ngram_values [''a''] (int 1) True =
     Inr ((''a'', \<lparr>string_frequency = 1, total_frequency = 1, idf = - 1\<rparr>)
          # map (\<lambda>letter. ([letter], \<lparr>string_frequency = 0, total_frequency = 0, idf = 0\<rparr>))
              ''bcdefghijklmnopqrstuvwxyz'')"
    using ngram_values_a by simp
  have 2: "(1::nat) \<le> 1" by simp
  have 3: "\<forall>s \<in> set [''a'']. CHR 0x09 \<notin> set s" by simp
  show ?thesis by (rule tab_key_error [OF 1 2 3])
qed

text \<open>
  Claim C3, as the code has it. Let the scorer be the one \<^verbatim>\<open>tfidf_score_function\<close>
  returns for a table, with a length-penalty exponent above 0, and let every n-gram of the
  string be a key of the table (as it is for a cleaned lowercase string and a complete
  table); let the string have no n-gram or the largest \<open>total_frequency\<close> of the table be
  positive. Then the scorer returns the score as the specification words it, and the
  length-penalty term is 0 whenever \<open>m\<close> is at most the length threshold. In particular the
  result is defined for \<open>m = 0\<close>.
\<close>

theorem score_formula:
  assumes "tfidf_score_function weights thr lexp rexp = Inr sc"
    and "\<forall>g \<in> set (ngrams s (int (sc_ngram_length sc))). map_of weights g \<noteq> None"
    and "0 < lexp"
    and "ngrams s (int (sc_ngram_length sc)) = []
         \<or> 0 < Max ((\<lambda>(g, v). total_frequency v) ` set weights)"
  shows "score_function sc s = Inr (spec_score weights thr lexp rexp (int (sc_ngram_length sc)) s)
     \<and> (int (length (ngrams s (int (sc_ngram_length sc)))) \<le> thr \<longrightarrow>
          spec_length_penalty (length (ngrams s (int (sc_ngram_length sc)))) thr lexp = 0)"
proof -
  have "int (length (ngrams s (int (sc_ngram_length sc)))) \<le> thr \<longrightarrow>
      spec_length_penalty (length (ngrams s (int (sc_ngram_length sc)))) thr lexp = 0"
    by (simp add: spec_length_penalty_def)
  with score_function_eq_spec [OF assms] show ?thesis by blast
qed

theorem score_formula_witness:
  "\<exists>sc. tfidf_score_function
            ((''a'', \<lparr>string_frequency = 1, total_frequency = 1, idf = - 1\<rparr>)
             # map (\<lambda>letter. ([letter], \<lparr>string_frequency = 0, total_frequency = 0, idf = 0\<rparr>))
                 ''bcdefghijklmnopqrstuvwxyz'') 25 1 1 = Inr sc
     \<and> score_function sc ''a''
         = Inr (spec_score
            ((''a'', \<lparr>string_frequency = 1, total_frequency = 1, idf = - 1\<rparr>)
             # map (\<lambda>letter. ([letter], \<lparr>string_frequency = 0, total_frequency = 0, idf = 0\<rparr>))
                 ''bcdefghijklmnopqrstuvwxyz'') 25 1 1 (int (sc_ngram_length sc)) ''a'')
     \<and> sc_ngram_length sc = 1
     \<and> spec_score
            ((''a'', \<lparr>string_frequency = 1, total_frequency = 1, idf = - 1\<rparr>)
             # map (\<lambda>letter. ([letter], \<lparr>string_frequency = 0, total_frequency = 0, idf = 0\<rparr>))
                 ''bcdefghijklmnopqrstuvwxyz'') 25 1 1 1 ''a'' = - 1 / 2"
proof -
  let ?T = "(''a'', \<lparr>string_frequency = 1, total_frequency = 1, idf = - 1\<rparr>)
             # map (\<lambda>letter. ([letter], \<lparr>string_frequency = 0, total_frequency = 0, idf = 0::real\<rparr>))
                 ''bcdefghijklmnopqrstuvwxyz''"
  obtain sc where sc: "tfidf_score_function ?T 25 1 1 = Inr sc" and n: "sc_ngram_length sc = 1"
    by (simp add: tfidf_score_function_def highest_total_frequency_def py_max_def)
  have g: "ngrams ''a'' (int (sc_ngram_length sc)) = [''a'']"
    by (simp add: n ngrams_def py_slice_def)
  have 2: "\<forall>g \<in> set (ngrams ''a'' (int (sc_ngram_length sc))). map_of ?T g \<noteq> None"
    by (simp add: g)
  have 3: "(0::real) < 1" by simp
  have 4: "ngrams ''a'' (int (sc_ngram_length sc)) = []
         \<or> 0 < Max ((\<lambda>(g, v). total_frequency v) ` set ?T)"
    by simp
  have v: "spec_score ?T 25 1 1 1 ''a'' = - 1 / 2"
    by (simp add: spec_eval_defs ngrams_def py_slice_def Let_def)
  from score_formula [OF sc 2 3 4] sc n v show ?thesis by blast
qed

text \<open>
  Claim C3 as stated fails for a length-penalty exponent of 0, since
  \<^verbatim>\<open>math.pow(0, 0.0)\<close> is 1.0: over the table built from \<^verbatim>\<open>['a']\<close>, with threshold 25
  and exponents 0 and 1, the string \<^verbatim>\<open>'a'\<close> scores \<open>(-1 + 1) / 2 = 0\<close> where the
  formula gives \<open>(-1 + 0) / 2\<close>. It fails as well over a table whose total frequencies
  are all 0 (the one built from \<^verbatim>\<open>['a', 'b']\<close>), where the division by
  \<^verbatim>\<open>max_freq\<close> raises.
\<close>

theorem score_formula_counterexample:
  "(case ngram_values [''a''] 1 True of
      Inl e \<Rightarrow> False
    | Inr t \<Rightarrow>
        (case tfidf_score_function t 25 0 1 of
           Inl e \<Rightarrow> False
         | Inr sc \<Rightarrow>
             score_function sc ''a'' = Inr 0
             \<and> spec_score t 25 0 1 (int (sc_ngram_length sc)) ''a'' = - 1 / 2))
   \<and> (case ngram_values [''a'', ''b''] 1 True of
      Inl e \<Rightarrow> False
    | Inr t \<Rightarrow>
        (case tfidf_score_function t 25 1 1 of
           Inl e \<Rightarrow> False
         | Inr sc \<Rightarrow> score_function sc ''a'' = Inl ZeroDivisionError))"
  by (simp add: ngram_values_a ngram_values_a_b score_eval_defs spec_eval_defs)

text \<open>
  Claim C8, as the code has it. The score is the n-gram sum plus the length penalty,
  divided by \<open>1 + m\<close>. What never decreases when characters are appended to a string (extra
  repeats of an n-gram among them) is the score before that division, that is the score
  times \<open>1 + m\<close>: provided every n-gram of the longer string is a key of the table with an
  idf that is not negative, the largest \<open>total_frequency\<close> is positive, the repetition
  exponent is not negative and the length-penalty exponent is positive.
\<close>

theorem unnormalised_score_mono:
  assumes "tfidf_score_function weights thr lexp rexp = Inr sc"
    and "\<forall>g \<in> set (ngrams (s @ extra) (int (sc_ngram_length sc))).
           \<exists>v. map_of weights g = Some v \<and> 0 \<le> idf v"
    and "0 < lexp" and "0 \<le> rexp"
    and "0 < Max ((\<lambda>(g, v). total_frequency v) ` set weights)"
  shows "\<exists>x y. score_function sc s = Inr x \<and> score_function sc (s @ extra) = Inr y
     \<and> x * (1 + real (length (ngrams s (int (sc_ngram_length sc)))))
         \<le> y * (1 + real (length (ngrams (s @ extra) (int (sc_ngram_length sc)))))"
proof -
  let ?n = "int (sc_ngram_length sc)"
  let ?M = "Max ((\<lambda>(g, v). total_frequency v) ` set weights)"
  let ?g = "ngrams s ?n" and ?g' = "ngrams (s @ extra) ?n"
  obtain rest where rest: "?g' = ?g @ rest" using ngrams_append by blast
  then have sub: "set ?g \<subseteq> set ?g'" by simp
  have look': "\<forall>g \<in> set ?g'. map_of weights g \<noteq> None" using assms(2) by auto
  with sub have look: "\<forall>g \<in> set ?g. map_of weights g \<noteq> None" by blast
  have x: "score_function sc s = Inr (spec_score weights thr lexp rexp ?n s)"
    by (rule score_function_eq_spec [OF assms(1) look assms(3)]) (simp add: assms(5))
  have y: "score_function sc (s @ extra) = Inr (spec_score weights thr lexp rexp ?n (s @ extra))"
    by (rule score_function_eq_spec [OF assms(1) look' assms(3)]) (simp add: assms(5))
  let ?F = "\<lambda>grams g. spec_contribution (idf (the (map_of weights g))) (count_list grams g) rexp ?M"
  have idf: "0 \<le> idf (the (map_of weights g))" if "g \<in> set ?g'" for g
    using assms(2) that by force
  have "(\<Sum>g \<in> set ?g. ?F ?g g) \<le> (\<Sum>g \<in> set ?g. ?F ?g' g)"
  proof (rule sum_mono)
    fix g assume "g \<in> set ?g"
    with sub have "g \<in> set ?g'" by blast
    moreover have "count_list ?g g \<le> count_list ?g' g" by (simp add: rest)
    ultimately show "?F ?g g \<le> ?F ?g' g"
      by (intro spec_contribution_mono idf assms(4))
  qed
  also have "\<dots> \<le> (\<Sum>g \<in> set ?g'. ?F ?g' g)"
    by (rule sum_mono2) (use sub idf in \<open>auto intro: spec_contribution_nonneg\<close>)
  finally have sums: "(\<Sum>g \<in> set ?g. ?F ?g g) \<le> (\<Sum>g \<in> set ?g'. ?F ?g' g)" .
  have "length ?g \<le> length ?g'" by (simp add: rest)
  then have pen: "spec_length_penalty (length ?g) thr lexp
      \<le> spec_length_penalty (length ?g') thr lexp"
    using assms(3) by (intro spec_length_penalty_mono) simp_all
  have "spec_score weights thr lexp rexp ?n s * (1 + real (length ?g))
      \<le> spec_score weights thr lexp rexp ?n (s @ extra) * (1 + real (length ?g'))"
    unfolding spec_score_unnormalised using sums pen by (rule add_mono)
  with x y show ?thesis by blast
qed

theorem unnormalised_score_mono_witness:
  "\<exists>sc x y.
     tfidf_score_function
       ([(''a'', \<lparr>string_frequency = 7, total_frequency = 36, idf = 1\<rparr>),
         (''b'', \<lparr>string_frequency = 1, total_frequency = 1, idf = 3\<rparr>)]
        @ map (\<lambda>letter. ([letter], \<lparr>string_frequency = 0, total_frequency = 0, idf = 3\<rparr>))
            ''cdefghijklmnopqrstuvwxyz'') 25 1 1 = Inr sc
     \<and> score_function sc ''zaa'' = Inr x \<and> score_function sc (''zaa'' @ ''a'') = Inr y
     \<and> x * (1 + real (length (ngrams ''zaa'' (int (sc_ngram_length sc)))))
         \<le> y * (1 + real (length (ngrams (''zaa'' @ ''a'') (int (sc_ngram_length sc)))))"
proof -
  let ?T = "[(''a'', \<lparr>string_frequency = 7, total_frequency = 36, idf = 1::real\<rparr>),
         (''b'', \<lparr>string_frequency = 1, total_frequency = 1, idf = 3\<rparr>)]
        @ map (\<lambda>letter. ([letter], \<lparr>string_frequency = 0, total_frequency = 0, idf = 3\<rparr>))
            ''cdefghijklmnopqrstuvwxyz''"
  obtain sc where sc: "tfidf_score_function ?T 25 1 1 = Inr sc" and n: "sc_ngram_length sc = 1"
    by (simp add: tfidf_score_function_def highest_total_frequency_def py_max_def)
  have g: "ngrams ''zaaa'' (int (sc_ngram_length sc)) = [''z'', ''a'', ''a'', ''a'']"
    by (simp add: n ngrams_def py_slice_def upt_rec)
  have 2: "\<forall>g \<in> set (ngrams (''zaa'' @ ''a'') (int (sc_ngram_length sc))).
      \<exists>v. map_of ?T g = Some v \<and> 0 \<le> idf v"
    by (simp add: g)
  have 3: "(0::real) < 1" and 4: "(0::real) \<le> 1" by simp_all
  have 5: "0 < Max ((\<lambda>(g, v). total_frequency v) ` set ?T)" by simp
  from unnormalised_score_mono [OF sc 2 3 4 5] sc show ?thesis by blast
qed

text \<open>
  Claim C8 as stated fails. Over the table built from sixteen strings (nine times
  \<^verbatim>\<open>'a'\<close>, then \<^verbatim>\<open>'aa'\<close> to \<^verbatim>\<open>'aaaaaaa'\<close>, then \<^verbatim>\<open>'b'\<close>), where \<^verbatim>\<open>'a'\<close> has idf 1
  and the unseen \<^verbatim>\<open>'z'\<close> has idf 3, with threshold 25 and both exponents 1: in
  \<^verbatim>\<open>'zaa'\<close> the n-gram \<^verbatim>\<open>'a'\<close> has the largest count, and appending one more
  \<^verbatim>\<open>'a'\<close> lowers the score from \<open>187 / 288\<close> to \<open>19 / 30\<close>. Over the table built from
  \<^verbatim>\<open>['a']\<close>, where the idf of \<^verbatim>\<open>'a'\<close> is \<open>-1\<close>, the score of \<^verbatim>\<open>'a'\<close> is \<open>-1 / 2\<close> and
  that of \<^verbatim>\<open>'aa'\<close> is \<open>-1\<close>: with a negative idf the score before the division
  decreases too, from \<open>-1\<close> to \<open>-3\<close>.
\<close>

theorem score_mono_counterexample:
  "(case ngram_values
           [''a'', ''a'', ''a'', ''a'', ''a'', ''a'', ''a'', ''a'', ''a'',
            ''aa'', ''aaa'', ''aaaa'', ''aaaaa'', ''aaaaaa'', ''aaaaaaa'', ''b''] 1 True of
      Inl e \<Rightarrow> False
    | Inr t \<Rightarrow>
        (case tfidf_score_function t 25 1 1 of
           Inl e \<Rightarrow> False
         | Inr sc \<Rightarrow>
             count_list (ngrams ''zaa'' (int (sc_ngram_length sc))) ''a'' = 2
             \<and> count_list (ngrams ''zaa'' (int (sc_ngram_length sc))) ''z'' = 1
             \<and> score_function sc ''zaa'' = Inr (187 / 288)
             \<and> score_function sc (''zaa'' @ ''a'') = Inr (19 / 30)))
   \<and> (19 / 30 :: real) < 187 / 288
   \<and> (case ngram_values [''a''] 1 True of
      Inl e \<Rightarrow> False
    | Inr t \<Rightarrow>
        (case tfidf_score_function t 25 1 1 of
           Inl e \<Rightarrow> False
         | Inr sc \<Rightarrow>
             score_function sc ''a'' = Inr (- 1 / 2)
             \<and> score_function sc (''a'' @ ''a'') = Inr (- 1)))"
  by (simp add: ngram_values_sixteen ngram_values_a score_eval_defs upt_rec)

end
